theory Spec2Isabelle
  imports Complex_Main "HOL-Library.AList" "HOL-Library.Sublist" "HOL-Library.Word"
begin

section \<open>Data model of the frame extractor (src/src/App.tsx)\<close>

text \<open>
  The image formats a user can choose (\<open>VideoSettings.format\<close>) and the text each one
  contributes to file names and MIME types.
\<close>

datatype image_format = Jpg | Png | Webp

fun format_str :: "image_format \<Rightarrow> string" where
  "format_str Jpg = ''jpg''"
| "format_str Png = ''png''"
| "format_str Webp = ''webp''"

text \<open>A \<open>Uint8Array\<close>: a sequence of bytes.\<close>

type_synonym bytes = "8 word list"

datatype extraction_mode = AllFrames | Interval | Count

text \<open>
  \<open>interface VideoSettings\<close>. Numbers that the code only compares or passes on are
  rationals; counts are naturals; \<open>maxWidth: number | null\<close> is an option.
\<close>

record video_settings =
  format :: image_format
  quality :: rat
  maxWidth :: "nat option"
  extractionMode :: extraction_mode
  framesPerSecond :: nat
  totalFrames :: nat
  filenamePattern :: string
  useOriginalName :: bool

text \<open>The initial settings of the component (\<open>useState<VideoSettings>\<close>).\<close>

definition default_settings :: video_settings where
  "default_settings =
     \<lparr>format = Webp, quality = 1, maxWidth = None, extractionMode = AllFrames,
      framesPerSecond = 60, totalFrames = 100, filenamePattern = ''frame_%i'',
      useOriginalName = False\<rparr>"

section \<open>Numbers\<close>

text \<open>
  A JavaScript number is a double: a finite double is a rational number, and beside the
  finite ones there are \<open>Infinity\<close> and \<open>NaN\<close>. The numbers of an extraction are never
  negative (a duration, frame rates, counts, times), so the negative infinity and the
  negative zero of doubles do not arise and have no place here.
\<close>

datatype js_number = Num rat | Infinity | NaN

instantiation js_number :: zero
begin

definition zero_js_number :: js_number where
  "zero_js_number = Num 0"

instance ..

end

text \<open>\<open>a < b\<close>: false whenever \<open>NaN\<close> is involved.\<close>

fun js_less :: "js_number \<Rightarrow> js_number \<Rightarrow> bool" where
  "js_less (Num a) (Num b) = (a < b)"
| "js_less (Num a) Infinity = True"
| "js_less _ _ = False"

text \<open>
  The result of an arithmetic operation on finite doubles is the exact result rounded to
  a double. The rounding belongs to the platform and is a parameter \<open>rnd\<close> of everything
  that computes (no result of an extraction comes near the largest double, so a rounded
  result is finite).
\<close>

fun js_add :: "(rat \<Rightarrow> rat) \<Rightarrow> js_number \<Rightarrow> js_number \<Rightarrow> js_number" where
  "js_add rnd (Num a) (Num b) = Num (rnd (a + b))"
| "js_add rnd NaN _ = NaN"
| "js_add rnd _ NaN = NaN"
| "js_add rnd _ _ = Infinity"

fun js_mul :: "(rat \<Rightarrow> rat) \<Rightarrow> js_number \<Rightarrow> js_number \<Rightarrow> js_number" where
  "js_mul rnd (Num a) (Num b) = Num (rnd (a * b))"
| "js_mul rnd NaN _ = NaN"
| "js_mul rnd _ NaN = NaN"
| "js_mul rnd (Num a) Infinity = (if a = 0 then NaN else Infinity)"
| "js_mul rnd Infinity (Num b) = (if b = 0 then NaN else Infinity)"
| "js_mul rnd Infinity Infinity = Infinity"

fun js_div :: "(rat \<Rightarrow> rat) \<Rightarrow> js_number \<Rightarrow> js_number \<Rightarrow> js_number" where
  "js_div rnd (Num a) (Num b) =
     (if b = 0 then (if a = 0 then NaN else Infinity) else Num (rnd (a / b)))"
| "js_div rnd NaN _ = NaN"
| "js_div rnd _ NaN = NaN"
| "js_div rnd (Num a) Infinity = Num 0"
| "js_div rnd Infinity (Num b) = Infinity"
| "js_div rnd Infinity Infinity = NaN"

text \<open>\<open>Math.ceil\<close> and \<open>Math.round\<close> (halves go up); both are exact.\<close>

fun js_ceil :: "js_number \<Rightarrow> js_number" where
  "js_ceil (Num a) = Num (of_int \<lceil>a\<rceil>)"
| "js_ceil x = x"

fun js_round :: "js_number \<Rightarrow> js_number" where
  "js_round (Num a) = Num (of_int \<lfloor>a + 1 / 2\<rfloor>)"
| "js_round x = x"

section \<open>File names: \<open>generateFilename\<close>\<close>

text \<open>
  \<open>String(index)\<close> for a non-negative integer index: its decimal digits, most significant
  first (JavaScript switches to exponent notation only from \<open>1e21\<close> on, far beyond any
  frame counter).
\<close>

definition digit_char :: "nat \<Rightarrow> char" where
  "digit_char d = ''0123456789'' ! d"

fun string_of_nat :: "nat \<Rightarrow> string" where
  "string_of_nat n =
     (if n < 10 then [digit_char n] else string_of_nat (n div 10) @ [digit_char (n mod 10)])"

declare string_of_nat.simps [simp del]

text \<open>\<open>s.padStart(w, '0')\<close>: zeros are put in front only while the text is shorter than \<open>w\<close>.\<close>

definition padStart :: "nat \<Rightarrow> char \<Rightarrow> string \<Rightarrow> string" where
  "padStart w c s = (if length s < w then replicate (w - length s) c @ s else s)"

text \<open>
  \<open>name.replace(/\.[^/.]+$/, "")\<close>: the first (leftmost) place where a dot is followed, up
  to the end of the text, by one or more characters that are neither \<open>/\<close> nor \<open>.\<close> is cut
  off; a text with no such place is returned as it is.
\<close>

definition ext_char :: "char \<Rightarrow> bool" where
  "ext_char c = (c \<noteq> CHR ''/'' \<and> c \<noteq> CHR ''.'')"

fun strip_extension :: "string \<Rightarrow> string" where
  "strip_extension [] = []"
| "strip_extension (c # cs) =
     (if c = CHR ''.'' \<and> cs \<noteq> [] \<and> list_all ext_char cs then []
      else c # strip_extension cs)"

text \<open>
  \<open>pattern.replace(/%i/g, r)\<close>: a scan from the left; every match of the two characters
  \<open>%i\<close> is replaced by \<open>r\<close> and the scan goes on behind the match. The replacement text
  is made of digits here, so none of the \<open>$\<close> forms of a replacement string occurs.
\<close>

fun replace_percent_i :: "string \<Rightarrow> string \<Rightarrow> string" where
  "replace_percent_i r [] = []"
| "replace_percent_i r [c] = [c]"
| "replace_percent_i r (c # d # cs) =
     (if c = CHR ''%'' \<and> d = CHR ''i'' then r @ replace_percent_i r cs
      else c # replace_percent_i r (d # cs))"

definition paddingLength :: "nat \<Rightarrow> nat" where
  "paddingLength total_frames =
     (if total_frames \<ge> 10000 then 5 else if total_frames \<ge> 1000 then 4
      else if total_frames \<ge> 100 then 3 else 2)"

definition generateFilename :: "video_settings \<Rightarrow> nat \<Rightarrow> nat \<Rightarrow> string \<Rightarrow> string" where
  "generateFilename settings index total_frames originalName =
     (let pattern = (if useOriginalName settings
                     then strip_extension originalName @ ''_%i''
                     else filenamePattern settings)
      in replace_percent_i (padStart (paddingLength total_frames) CHR ''0'' (string_of_nat index)) pattern
           @ ''.'' @ format_str (format settings))"


subsection \<open>The file name as the specification words it\<close>

text \<open>
  A second definition, following the wording of the specification, to compare with the
  code: the padding width by the size of the run, the index padded with zeros, the final
  extension found from the last dot, and the pattern cut at every \<open>%i\<close> and joined again
  with the padded index.
\<close>

definition spec_width :: "nat \<Rightarrow> nat" where
  "spec_width n = (if n < 100 then 2 else if n < 1000 then 3 else if n < 10000 then 4 else 5)"

definition spec_zero_pad :: "nat \<Rightarrow> string \<Rightarrow> string" where
  "spec_zero_pad w s = replicate (w - length s) CHR ''0'' @ s"

definition final_extension :: "string \<Rightarrow> string" where
  "final_extension name = rev (takeWhile (\<lambda>c. c \<noteq> CHR ''.'') (rev name))"

definition spec_strip_final_extension :: "string \<Rightarrow> string" where
  "spec_strip_final_extension name =
     (let ext = final_extension name
      in if CHR ''.'' \<in> set name \<and> ext \<noteq> [] \<and> CHR ''/'' \<notin> set ext
         then take (length name - Suc (length ext)) name else name)"

fun split_percent_i :: "string \<Rightarrow> string list" where
  "split_percent_i [] = [[]]"
| "split_percent_i [c] = [[c]]"
| "split_percent_i (c # d # cs) =
     (if c = CHR ''%'' \<and> d = CHR ''i'' then [] # split_percent_i cs
      else (case split_percent_i (d # cs) of p # ps \<Rightarrow> (c # p) # ps | [] \<Rightarrow> [[c]]))"

fun join :: "string \<Rightarrow> string list \<Rightarrow> string" where
  "join r [] = []"
| "join r [p] = p"
| "join r (p # q # ps) = p @ r @ join r (q # ps)"


definition spec_generateFilename :: "video_settings \<Rightarrow> nat \<Rightarrow> nat \<Rightarrow> string \<Rightarrow> string" where
  "spec_generateFilename settings i n originalName =
     join (spec_zero_pad (spec_width n) (string_of_nat i))
       (split_percent_i (if useOriginalName settings
                         then spec_strip_final_extension originalName @ ''_%i''
                         else filenamePattern settings))
     @ ''.'' @ format_str (format settings)"

section \<open>Choosing a file: \<open>handleFileSelect\<close>\<close>

text \<open>A \<open>File\<close> as far as the component looks at it: its name, its MIME type, its bytes.\<close>

record js_file =
  file_name :: string
  file_type :: string
  file_data :: bytes

text \<open>
  The React state of the component that the handlers write, and the messages shown
  with \<open>alert\<close>, oldest first.
\<close>

record ui_state =
  videoFile :: "js_file option"
  videoUrl :: string
  isPlaying :: bool
  isProcessing :: bool
  progress :: js_number
  alerts :: "string list"

text \<open>
  \<open>handleFileSelect(file)\<close>. The drop handler passes \<open>files[0]\<close>, which is \<open>undefined\<close> when
  nothing was dropped, so the argument is an option. \<open>URL.createObjectURL\<close> belongs to the
  platform and is a parameter.
\<close>

definition handleFileSelect :: "(js_file \<Rightarrow> string) \<Rightarrow> js_file option \<Rightarrow> ui_state \<Rightarrow> ui_state" where
  "handleFileSelect createObjectURL f s =
     (case f of
        Some the_file \<Rightarrow>
          if prefix ''video/'' (file_type the_file)
          then s\<lparr>videoFile := Some the_file, videoUrl := createObjectURL the_file,
                 isPlaying := False, progress := 0\<rparr>
          else s\<lparr>alerts := alerts s @ [''Please select a valid video file'']\<rparr>
      | None \<Rightarrow> s\<lparr>alerts := alerts s @ [''Please select a valid video file'']\<rparr>)"

section \<open>Handing the archive to the user: \<open>createDownload\<close>\<close>

text \<open>
  What \<open>createDownload\<close> does with the archive: it pipes it into a StreamSaver write stream
  opened under a file name, or it clicks a temporary link whose \<open>download\<close> attribute is
  the file name.
\<close>

datatype download = StreamSaver string bytes | LinkClick string bytes

fun download_name :: "download \<Rightarrow> string" where
  "download_name (StreamSaver name _) = name"
| "download_name (LinkClick name _) = name"

fun is_streamed :: "download \<Rightarrow> bool" where
  "is_streamed (StreamSaver _ _) = True"
| "is_streamed (LinkClick _ _) = False"

text \<open>
  \<open>createDownload(compressedData, originalFilename)\<close>; \<open>now\<close> is the value of \<open>Date.now()\<close>
  read in the branch taken. The size of the blob is the number of bytes it was made of.
\<close>

definition createDownload :: "nat \<Rightarrow> bytes \<Rightarrow> string \<Rightarrow> download" where
  "createDownload now compressedData originalFilename =
     (if length compressedData > 100 * 1024 * 1024
      then StreamSaver (''frames_'' @ strip_extension originalFilename @ ''_''
                          @ string_of_nat now @ ''.zip'') compressedData
      else LinkClick (''frames_'' @ strip_extension originalFilename @ ''_''
                        @ string_of_nat now @ ''.zip'') compressedData)"

section \<open>The encode worker (\<open>workers/frame.worker.ts\<close>)\<close>

text \<open>
  A value thrown by the platform or by a library: an \<open>Error\<close> object with its message,
  or something that is not an \<open>Error\<close>. Both workers report
  \<open>error instanceof Error ? error.message : 'Unknown error'\<close>.
\<close>

datatype js_throw = ErrorObject string | OtherValue

fun error_message :: "js_throw \<Rightarrow> string" where
  "error_message (ErrorObject msg) = msg"
| "error_message OtherValue = ''Unknown error''"

text \<open>
  An \<open>ImageData\<close>: its size and the picture in it. A picture of the video is identified
  by the playback position of the video frame it was copied from.
\<close>

record image_data =
  img_width :: nat
  img_height :: nat
  img_position :: rat

text \<open>The message \<open>processFrameInWorker\<close> posts to a pool worker.\<close>

record frame_request =
  imageData :: image_data
  req_format :: image_format
  req_quality :: rat
  frameNumber :: nat

text \<open>\<open>type WorkerResponse = WorkerSuccess | WorkerError\<close>.\<close>

datatype worker_response = WorkerSuccess nat bytes | WorkerError string

text \<open>
  What the worker uses of the platform: whether \<open>getContext('2d')\<close> of the
  \<open>OffscreenCanvas\<close> yields a context, and \<open>convertToBlob\<close> followed by
  \<open>arrayBuffer\<close>, which gives the encoded bytes for a picture, a requested type and an
  optional quality, or throws.
\<close>

record canvas_platform =
  offscreen_context :: bool
  convertToBlob :: "image_data \<Rightarrow> string \<Rightarrow> rat option \<Rightarrow> js_throw + bytes"

text \<open>\<open>const mimeType = `image/${settings.format}`\<close>.\<close>

definition mimeType :: "image_format \<Rightarrow> string" where
  "mimeType fmt = ''image/'' @ format_str fmt"

text \<open>\<open>self.onmessage\<close> of the encode worker: the message it posts back.\<close>

definition frame_worker_onmessage :: "canvas_platform \<Rightarrow> frame_request \<Rightarrow> worker_response" where
  "frame_worker_onmessage platform req =
     (if \<not> offscreen_context platform
      then WorkerError (error_message (ErrorObject ''Failed to get context''))
      else
        let quality_opt = (if req_format req = Png then None else Some (req_quality req))
        in case convertToBlob platform (imageData req) (mimeType (req_format req)) quality_opt of
             Inl thrown \<Rightarrow> WorkerError (error_message thrown)
           | Inr data \<Rightarrow> WorkerSuccess (frameNumber req) data)"

subsection \<open>The canvas encoder of a browser\<close>

text \<open>
  The platform's rule for \<open>convertToBlob\<close> and \<open>toBlob\<close> (HTML Standard, serialising a
  bitmap to a file): the bitmap is encoded in the requested type if the user agent
  supports that type for encoding, and as PNG otherwise. The types a browser registers for
  its encoders are the MIME types of the formats; the one of JPEG is \<open>image/jpeg\<close>.
\<close>

definition serialisation_type :: "string list \<Rightarrow> string \<Rightarrow> string" where
  "serialisation_type supported requested =
     (if requested \<in> set supported then requested else ''image/png'')"

definition encoder_types :: "string list" where
  "encoder_types = [''image/png'', ''image/jpeg'', ''image/webp'']"

text \<open>
  A browser with these encoders: \<open>encode\<close> stands for the codecs, applied to the picture,
  the type actually used and the quality.
\<close>

definition browser_canvas ::
  "(image_data \<Rightarrow> string \<Rightarrow> rat option \<Rightarrow> bytes) \<Rightarrow> canvas_platform" where
  "browser_canvas encode =
     \<lparr>offscreen_context = True,
      convertToBlob = (\<lambda>img requested q.
         Inr (encode img (serialisation_type encoder_types requested) q))\<rparr>"

text \<open>The MIME type of each format the settings offer (JPEG, PNG, WebP).\<close>

fun format_mime :: "image_format \<Rightarrow> string" where
  "format_mime Jpg = ''image/jpeg''"
| "format_mime Png = ''image/png''"
| "format_mime Webp = ''image/webp''"

section \<open>The compression worker (\<open>workers/compression.worker.ts\<close>)\<close>

text \<open>
  The worker drives the JSZip library, which is not part of the repository. It is a
  parameter: the empty archive object of \<open>new JSZip.default()\<close>, \<open>zip.file(name, data)\<close>,
  and \<open>zip.generateAsync(options)\<close>, which yields the bytes of the archive or throws.
\<close>

record generate_options =
  out_type :: string
  compression :: string
  compression_level :: nat

record 'z jszip =
  zip_new :: 'z
  zip_file :: "'z \<Rightarrow> string \<Rightarrow> bytes \<Rightarrow> 'z"
  zip_generateAsync :: "'z \<Rightarrow> generate_options \<Rightarrow> js_throw + bytes"

datatype compress_response = CompressData bytes | CompressError string

text \<open>
  A \<open>Record<string, Uint8Array>\<close> is an association list with each key once, in the order
  the keys were first written; \<open>Object.entries\<close> lists it in that order (no file name is
  an array index, all end in a dot and the format). \<open>level || 6\<close> is 6 when the level
  is missing or zero.
\<close>

definition level_or_6 :: "nat option \<Rightarrow> nat" where
  "level_or_6 level = (case level of None \<Rightarrow> 6 | Some l \<Rightarrow> if l = 0 then 6 else l)"

definition add_frames :: "'z jszip \<Rightarrow> (string \<times> bytes) list \<Rightarrow> 'z" where
  "add_frames lib frames_rec =
     foldl (\<lambda>zip (filename, data). zip_file lib zip filename data) (zip_new lib) frames_rec"

definition deflate_options :: "nat option \<Rightarrow> generate_options" where
  "deflate_options level =
     \<lparr>out_type = ''uint8array'', compression = ''DEFLATE'',
      compression_level = level_or_6 level\<rparr>"

text \<open>
  \<open>self.onmessage\<close> of the compression worker. The dynamic \<open>import('jszip')\<close> gives the
  library or throws.
\<close>

definition compression_onmessage ::
  "js_throw + 'z jszip \<Rightarrow> (string \<times> bytes) list \<Rightarrow> nat option \<Rightarrow> compress_response" where
  "compression_onmessage imported frames_rec level =
     (case imported of
        Inl thrown \<Rightarrow> CompressError (error_message thrown)
      | Inr lib \<Rightarrow>
          (case zip_generateAsync lib (add_frames lib frames_rec) (deflate_options level) of
             Inl thrown \<Rightarrow> CompressError (error_message thrown)
           | Inr zipData \<Rightarrow> CompressData zipData))"

text \<open>
  A library for trying the worker out: the archive object is the table of its entries,
  \<open>file\<close> writes one entry, and the archive bytes are the entries' names and data in a
  row, each followed by a zero byte.
\<close>

definition table_zip :: "((string \<times> bytes) list) jszip" where
  "table_zip =
     \<lparr>zip_new = [],
      zip_file = (\<lambda>zip filename data. AList.update filename data zip),
      zip_generateAsync = (\<lambda>zip opts.
         Inr (concat (map (\<lambda>(filename, data). map of_char filename @ [0] @ data @ [0]) zip)))\<rparr>"

section \<open>The frame queue of \<open>processFramesWithWorkers\<close>\<close>

text \<open>
  The loop that fills the queue:
  \<^verbatim>\<open>while (frameQueue.length < totalFrames && currentTime < video.duration) {
      frameQueue.push(currentTime); currentTime += frameInterval; }\<close>
  The total, the duration and the interval are numbers as \<open>extractFrames\<close> computes them,
  infinite or \<open>NaN\<close> ones included. The loop need not come to an end: its value is \<open>None\<close>
  when it does not. A time that is pushed is below the duration and so finite.
\<close>

partial_function (option) frameQueue_loop ::
  "(rat \<Rightarrow> rat) \<Rightarrow> js_number \<Rightarrow> js_number \<Rightarrow> js_number \<Rightarrow> rat list \<Rightarrow> js_number
     \<Rightarrow> rat list option" where
  "frameQueue_loop rnd total_n video_duration frameInterval queue current =
     (case current of
        Num t \<Rightarrow>
          if js_less (Num (of_nat (length queue))) total_n \<and> js_less current video_duration
          then frameQueue_loop rnd total_n video_duration frameInterval
                 (queue @ [t]) (js_add rnd current frameInterval)
          else Some queue
      | _ \<Rightarrow> Some queue)"

declare frameQueue_loop.simps [code]

definition build_frameQueue ::
  "(rat \<Rightarrow> rat) \<Rightarrow> js_number \<Rightarrow> js_number \<Rightarrow> js_number \<Rightarrow> rat list option" where
  "build_frameQueue rnd total_n video_duration frameInterval =
     frameQueue_loop rnd total_n video_duration frameInterval [] (Num 0)"

section \<open>The video element\<close>

text \<open>
  The video element as the extraction uses it. Its duration is \<open>NaN\<close> before the metadata
  are loaded, \<open>Infinity\<close> for a stream or a recording without a length, and a finite
  number otherwise. Seeking follows the HTML Standard: an
  assignment to \<open>currentTime\<close> starts a seek (and supersedes one in progress); when the
  seek is done the element shows the frame at the current position, \<open>seeking\<close> becomes
  false and a \<open>seeked\<close> event is queued; the event is dispatched later, as a task of its
  own. \<open>v_shown\<close> is the position of the frame on display, the one \<open>drawImage\<close> copies.
\<close>

record video_element =
  v_src :: string
  v_duration :: js_number
  v_videoWidth :: nat
  v_videoHeight :: nat
  v_currentTime :: rat
  v_seeking :: bool
  v_shown :: rat
  v_seeked_tasks :: nat

definition set_currentTime :: "rat \<Rightarrow> video_element \<Rightarrow> video_element" where
  "set_currentTime t v = v\<lparr>v_currentTime := t, v_seeking := True\<rparr>"

definition seek_done :: "video_element \<Rightarrow> video_element" where
  "seek_done v =
     v\<lparr>v_seeking := False, v_shown := v_currentTime v,
       v_seeked_tasks := v_seeked_tasks v + 1\<rparr>"

section \<open>The extraction: \<open>extractFrames\<close> and \<open>processFramesWithWorkers\<close>\<close>

text \<open>
  JavaScript on the main thread runs one block at a time: an async function runs until
  it awaits something that is not there yet, and goes on when the event it waits for is
  delivered. Each of the loops \<open>processNextBatch(worker)\<close> is therefore in one of these
  places between blocks: not yet called, waiting for \<open>seeked\<close> with the frame time it took
  from the queue, waiting for the message of its encode worker with the request it
  posted, returned, or left by a throw.
\<close>

datatype loop_state =
    NotStarted
  | AwaitSeeked rat
  | AwaitEncode rat frame_request
  | Finished
  | Threw js_throw

datatype phase = Extracting | Compressing | Downloaded download | Aborted

text \<open>
  The variables shared by the loops and by \<open>extractFrames\<close>. \<open>shifted\<close> is a history
  variable: it notes every \<open>frameQueue.shift()\<close>, with the loop that made it; the code
  never reads it.
\<close>

record extraction =
  ex_settings :: video_settings
  total_frames :: js_number
  original_name :: string
  frameQueue :: "rat list"
  video :: video_element
  seeked_listeners :: "nat list"
  loops :: "loop_state list"
  frames :: "(string \<times> bytes) list"
  completedFrames :: nat
  ui :: ui_state
  phase :: phase
  workers_terminated :: bool
  shifted :: "(nat \<times> rat) list"

text \<open>
  What the run depends on outside the main thread: the answer of an encode worker to a
  request, the answer of the compression worker to a frames record and a level, whether
  \<open>getContext('2d')\<close> of a canvas in the document yields a context, \<open>Date.now()\<close>,
  whether piping into the StreamSaver stream succeeds, and the rounding of an exact
  result to a double.
\<close>

record environment =
  frame_worker :: "frame_request \<Rightarrow> worker_response"
  compression_worker :: "(string \<times> bytes) list \<Rightarrow> nat option \<Rightarrow> compress_response"
  document_context :: bool
  date_now :: nat
  pipe_ok :: bool
  to_double :: "rat \<Rightarrow> rat"

text \<open>The \<open>switch (settings.extractionMode)\<close>: the frame interval and the number of frames.\<close>

definition extraction_plan ::
  "(rat \<Rightarrow> rat) \<Rightarrow> video_settings \<Rightarrow> js_number \<Rightarrow> js_number \<times> js_number" where
  "extraction_plan rnd st video_duration =
     (case extractionMode st of
        AllFrames \<Rightarrow> (js_div rnd (Num 1) (Num 60),
                      js_ceil (js_mul rnd video_duration (Num 60)))
      | Interval \<Rightarrow> (js_div rnd (Num 1) (Num (of_nat (framesPerSecond st))),
                     js_ceil (js_mul rnd video_duration (Num (of_nat (framesPerSecond st)))))
      | Count \<Rightarrow> (js_div rnd video_duration (Num (of_nat (totalFrames st))),
                  Num (of_nat (totalFrames st))))"

text \<open>
  The size of the temporary canvas: the video's own size, or \<open>maxWidth\<close> and the height
  scaled by \<open>maxWidth / videoWidth\<close> and rounded when \<open>maxWidth\<close> is set (zero counts as
  not set). A video of width zero gives no finite height; the canvas takes that as zero.
\<close>

definition target_size :: "(rat \<Rightarrow> rat) \<Rightarrow> nat option \<Rightarrow> video_element \<Rightarrow> nat \<times> nat" where
  "target_size rnd max_width v =
     (case max_width of
        None \<Rightarrow> (v_videoWidth v, v_videoHeight v)
      | Some m \<Rightarrow>
          if m = 0 then (v_videoWidth v, v_videoHeight v)
          else
            let ratio = js_div rnd (Num (of_nat m)) (Num (of_nat (v_videoWidth v)))
            in (m, case js_round (js_mul rnd (Num (of_nat (v_videoHeight v))) ratio) of
                     Num h \<Rightarrow> nat \<lfloor>h\<rfloor>
                   | _ \<Rightarrow> 0))"

text \<open>
  The head of the loop in \<open>processNextBatch\<close>, up to its first \<open>await\<close>: with an empty queue
  the loop returns; otherwise it takes the first time off the queue, assigns it to
  \<open>video.currentTime\<close> and registers a one-shot \<open>seeked\<close> listener.
\<close>

definition loop_head :: "nat \<Rightarrow> extraction \<Rightarrow> extraction" where
  "loop_head w s =
     (case frameQueue s of
        [] \<Rightarrow> s\<lparr>loops := (loops s)[w := Finished]\<rparr>
      | frameTime # rest \<Rightarrow>
          s\<lparr>frameQueue := rest,
            video := set_currentTime frameTime (video s),
            seeked_listeners := seeked_listeners s @ [w],
            loops := (loops s)[w := AwaitSeeked frameTime],
            shifted := shifted s @ [(w, frameTime)]\<rparr>)"

text \<open>
  From the \<open>seeked\<close> listener to the \<open>await\<close> in \<open>processFrameInWorker\<close>: the loop makes a
  canvas (and throws without a context), draws the frame the video shows, reads it back
  (\<open>getImageData\<close> throws for an empty rectangle) and posts it to its worker with the
  current value of \<open>completedFrames\<close> as frame number. Loops are numbered as the workers
  of the pool are; there is no loop beyond them.
\<close>

definition capture_frame :: "environment \<Rightarrow> nat \<Rightarrow> extraction \<Rightarrow> extraction" where
  "capture_frame env w s =
     (if w \<ge> length (loops s) then s
      else case loops s ! w of
        AwaitSeeked frameTime \<Rightarrow>
          if \<not> document_context env
          then s\<lparr>loops := (loops s)[w := Threw (ErrorObject ''Failed to get context'')]\<rparr>
          else
            let (targetWidth, targetHeight) =
                  target_size (to_double env) (maxWidth (ex_settings s)) (video s)
            in if targetWidth = 0 \<or> targetHeight = 0
               then s\<lparr>loops := (loops s)[w := Threw (ErrorObject ''IndexSizeError'')]\<rparr>
               else s\<lparr>loops := (loops s)[w := AwaitEncode frameTime
                         \<lparr>imageData = \<lparr>img_width = targetWidth, img_height = targetHeight,
                                        img_position = v_shown (video s)\<rparr>,
                          req_format = format (ex_settings s),
                          req_quality = quality (ex_settings s),
                          frameNumber = completedFrames s\<rparr>]\<rparr>
      | _ \<Rightarrow> s)"

text \<open>\<open>setProgress(Math.round((completedFrames / totalFrames) * 100))\<close>.\<close>

definition progress_percent :: "(rat \<Rightarrow> rat) \<Rightarrow> nat \<Rightarrow> js_number \<Rightarrow> js_number" where
  "progress_percent rnd completed total_n =
     js_round (js_mul rnd (js_div rnd (Num (of_nat completed)) total_n) (Num 100))"

text \<open>
  \<open>generateFilename\<close> only compares the total with 100, 1000 and 10000. The comparisons
  come out the same for this natural number: an infinite total is at least 10000, and
  \<open>NaN\<close> is at least nothing.
\<close>

definition compared_total :: "js_number \<Rightarrow> nat" where
  "compared_total total_n =
     (case total_n of Num n \<Rightarrow> nat \<lfloor>n\<rfloor> | Infinity \<Rightarrow> 10000 | NaN \<Rightarrow> 0)"

text \<open>
  The message of encode worker \<open>w\<close> arrives: \<open>handleMessage\<close> rejects with the error or
  resolves with the data; with the data the loop stores the frame under the next file
  name, counts it, reports progress and goes round to the head of the loop. A
  terminated worker delivers nothing, and only the workers of the pool exist.
\<close>

definition worker_message :: "environment \<Rightarrow> nat \<Rightarrow> extraction \<Rightarrow> extraction" where
  "worker_message env w s =
     (if workers_terminated s \<or> w \<ge> length (loops s) then s
      else case loops s ! w of
        AwaitEncode frameTime req \<Rightarrow>
          (case frame_worker env req of
             WorkerError msg \<Rightarrow> s\<lparr>loops := (loops s)[w := Threw (ErrorObject msg)]\<rparr>
           | WorkerSuccess n frameData \<Rightarrow>
               let filename = generateFilename (ex_settings s) (completedFrames s)
                                (compared_total (total_frames s)) (v_src (video s))
               in loop_head w
                    (s\<lparr>frames := AList.update filename frameData (frames s),
                       completedFrames := completedFrames s + 1,
                       ui := (ui s)\<lparr>progress :=
                               progress_percent (to_double env) (completedFrames s + 1)
                                 (total_frames s)\<rparr>\<rparr>))
      | _ \<Rightarrow> s)"

text \<open>
  The \<open>catch\<close> and \<open>finally\<close> of \<open>extractFrames\<close>: the user is alerted, the processing flag
  and the progress are reset and every pool worker is terminated.
\<close>

definition finally_reset :: "extraction \<Rightarrow> extraction" where
  "finally_reset s =
     s\<lparr>ui := (ui s)\<lparr>isProcessing := False, progress := 0\<rparr>, workers_terminated := True\<rparr>"

definition abort :: "extraction \<Rightarrow> extraction" where
  "abort s =
     finally_reset
       (s\<lparr>ui := (ui s)\<lparr>alerts := alerts (ui s) @ [''An error occurred while processing frames'']\<rparr>,
          phase := Aborted\<rparr>)"

fun is_threw :: "loop_state \<Rightarrow> bool" where
  "is_threw (Threw _) = True"
| "is_threw _ = False"

text \<open>
  \<open>await Promise.all(workers.map(...))\<close>: it rejects as soon as one loop has thrown, which
  takes \<open>extractFrames\<close> to its \<open>catch\<close>; it resolves when every loop has returned, and
  \<open>compressFrames\<close> posts the frames to the compression worker.
\<close>

definition settle :: "extraction \<Rightarrow> extraction" where
  "settle s =
     (if phase s = Extracting then
        if list_ex is_threw (loops s) then abort s
        else if list_all (\<lambda>l. l = Finished) (loops s) then s\<lparr>phase := Compressing\<rparr>
        else s
      else s)"

text \<open>
  The text \<open>undefined\<close> as bytes: \<open>compressFrames\<close> tests \<open>e.data.error\<close> for truth, so an
  error with an empty message resolves with the missing \<open>data\<close>, and the blob made of it
  holds this text.
\<close>

definition undefined_text :: bytes where
  "undefined_text = map of_char ''undefined''"

text \<open>
  The message of the compression worker arrives: \<open>compressFrames\<close> rejects or resolves,
  \<open>createDownload\<close> hands the archive over (a failed pipe is caught like any error), and
  the \<open>finally\<close> block runs.
\<close>

definition compression_message :: "environment \<Rightarrow> extraction \<Rightarrow> extraction" where
  "compression_message env s =
     (if phase s \<noteq> Compressing then s
      else
        let reply = compression_worker env (frames s) None;
            resolved = (case reply of
                          CompressData zipData \<Rightarrow> Some zipData
                        | CompressError msg \<Rightarrow> if msg = [] then Some undefined_text else None)
        in case resolved of
             None \<Rightarrow> abort s
           | Some compressedData \<Rightarrow>
               let d = createDownload (date_now env) compressedData (original_name s)
               in if is_streamed d \<and> \<not> pipe_ok env then abort s
                  else finally_reset (s\<lparr>phase := Downloaded d\<rparr>))"

text \<open>
  What can happen between two blocks: the video finishes the seek in progress, a queued
  \<open>seeked\<close> event is dispatched to the listeners registered at that moment (each is
  removed and its loop goes on), the message of an encode worker arrives, the message of
  the compression worker arrives. An event that cannot happen in a state leaves it as
  it is.
\<close>

datatype event = SeekDone | SeekedEvent | WorkerMessage nat | CompressionMessage

definition dispatch_seeked :: "environment \<Rightarrow> extraction \<Rightarrow> extraction" where
  "dispatch_seeked env s =
     foldl (\<lambda>s' w. capture_frame env w s')
       (s\<lparr>video := (video s)\<lparr>v_seeked_tasks := v_seeked_tasks (video s) - 1\<rparr>,
          seeked_listeners := []\<rparr>)
       (seeked_listeners s)"

fun handle :: "environment \<Rightarrow> event \<Rightarrow> extraction \<Rightarrow> extraction" where
  "handle env SeekDone s =
     (if v_seeking (video s) then s\<lparr>video := seek_done (video s)\<rparr> else s)"
| "handle env SeekedEvent s =
     (if v_seeked_tasks (video s) > 0 then dispatch_seeked env s else s)"
| "handle env (WorkerMessage w) s = worker_message env w s"
| "handle env CompressionMessage s = compression_message env s"

definition step :: "environment \<Rightarrow> event \<Rightarrow> extraction \<Rightarrow> extraction" where
  "step env e s = settle (handle env e s)"

definition run :: "environment \<Rightarrow> event list \<Rightarrow> extraction \<Rightarrow> extraction" where
  "run env es s = foldl (\<lambda>s' e. step env e s') s es"

text \<open>
  \<open>extractFrames\<close> up to its first \<open>await\<close>. Without a selected file it returns at once
  (the video and canvas elements it also asks for are there whenever a file is selected).
  Otherwise it creates \<open>navigator.hardwareConcurrency || 4\<close> workers, sets the processing
  flag, plans the extraction, fills the queue and calls \<open>processNextBatch\<close> for each
  worker in turn. When the loop that fills the queue does not come to an end, neither
  does this block: the value is \<open>None\<close>.
\<close>

datatype extract_call = ReturnedAtOnce | Running (running_state: extraction)

definition worker_count :: "nat \<Rightarrow> nat" where
  "worker_count hardwareConcurrency = (if hardwareConcurrency = 0 then 4 else hardwareConcurrency)"

definition extractFrames ::
  "environment \<Rightarrow> nat \<Rightarrow> video_settings \<Rightarrow> video_element \<Rightarrow> ui_state
     \<Rightarrow> extract_call option" where
  "extractFrames env hardwareConcurrency st v u =
     (case videoFile u of
        None \<Rightarrow> Some ReturnedAtOnce
      | Some the_file \<Rightarrow>
          let (frameInterval, totalFramesToExtract) =
                extraction_plan (to_double env) st (v_duration v)
          in case build_frameQueue (to_double env) totalFramesToExtract (v_duration v)
                    frameInterval of
               None \<Rightarrow> None
             | Some queue \<Rightarrow>
                 Some (Running (settle (foldl (\<lambda>s w. loop_head w s)
                   \<lparr>ex_settings = st, total_frames = totalFramesToExtract,
                    original_name = file_name the_file,
                    frameQueue = queue,
                    video = v, seeked_listeners = [],
                    loops = replicate (worker_count hardwareConcurrency) NotStarted,
                    frames = [], completedFrames = 0,
                    ui = u\<lparr>isProcessing := True, progress := 0\<rparr>,
                    phase = Extracting, workers_terminated = False, shifted = []\<rparr>
                   [0 ..< worker_count hardwareConcurrency]))))"

section \<open>Work left and consistency of an extraction\<close>

text \<open>
  A bound on what is still to happen in an extraction: every queued frame time costs a
  seek, a \<open>seeked\<close> event, a capture and a worker message; a loop waiting for \<open>seeked\<close> has
  two steps before it is back at the head of the loop, one waiting for its worker has
  one.
\<close>

fun loop_weight :: "loop_state \<Rightarrow> nat" where
  "loop_weight (AwaitSeeked _) = 2"
| "loop_weight (AwaitEncode _ _) = 1"
| "loop_weight _ = 0"

fun phase_weight :: "phase \<Rightarrow> nat" where
  "phase_weight Extracting = 2"
| "phase_weight Compressing = 1"
| "phase_weight _ = 0"

definition remaining_work :: "extraction \<Rightarrow> nat" where
  "remaining_work s =
     4 * length (frameQueue s) + sum_list (map loop_weight (loops s))
     + (if v_seeking (video s) then 2 else 0) + v_seeked_tasks (video s)
     + phase_weight (phase s)"

fun is_await_seeked :: "loop_state \<Rightarrow> bool" where
  "is_await_seeked (AwaitSeeked _) = True"
| "is_await_seeked _ = False"

text \<open>
  What holds between the blocks of an extraction once the loops numbered below \<open>j\<close> have
  been called: a loop that waits for \<open>seeked\<close> has its listener registered; registered
  listeners belong to loops of the pool and have a seek in progress or a queued \<open>seeked\<close>
  event to wait for; only loops from \<open>j\<close> on are not yet called; the workers are alive
  while frames are extracted.
\<close>

definition wired_upto :: "nat \<Rightarrow> extraction \<Rightarrow> bool" where
  "wired_upto j s =
     ((\<forall>w < length (loops s). is_await_seeked (loops s ! w) \<longrightarrow> w \<in> set (seeked_listeners s))
      \<and> (\<forall>w \<in> set (seeked_listeners s). w < length (loops s))
      \<and> (seeked_listeners s \<noteq> [] \<longrightarrow> v_seeking (video s) \<or> v_seeked_tasks (video s) > 0)
      \<and> (\<forall>w < length (loops s). loops s ! w = NotStarted \<longrightarrow> j \<le> w)
      \<and> (phase s = Extracting \<longrightarrow> \<not> workers_terminated s))"

text \<open>
  \<open>Promise.all\<close> has been looked at: while frames are extracted no loop has thrown and not
  all have returned.
\<close>

definition settled :: "extraction \<Rightarrow> bool" where
  "settled s =
     (phase s = Extracting \<longrightarrow>
        \<not> list_ex is_threw (loops s) \<and> \<not> list_all (\<lambda>l. l = Finished) (loops s))"

definition consistent :: "extraction \<Rightarrow> bool" where
  "consistent s = (wired_upto (length (loops s)) s \<and> settled s)"

section \<open>A small extraction to run\<close>

text \<open>
  An environment for running the model, with an arithmetic that rounds nothing: the
  encode workers on a browser whose codec
  writes one byte, the number of the video frame (at 60 frames a second) that the picture
  shows; the compression worker on the table library; a 640 by 360 video of a given
  duration, freshly loaded; a user interface with a file selected.
\<close>

definition stamp_codec :: "image_data \<Rightarrow> string \<Rightarrow> rat option \<Rightarrow> bytes" where
  "stamp_codec img mime q = [of_nat (nat \<lfloor>img_position img * 60\<rfloor>)]"

definition demo_env :: environment where
  "demo_env =
     \<lparr>frame_worker = frame_worker_onmessage (browser_canvas stamp_codec),
      compression_worker = compression_onmessage (Inr table_zip),
      document_context = True, date_now = 5, pipe_ok = True,
      to_double = (\<lambda>x. x)\<rparr>"

text \<open>The same with an encoder that throws.\<close>

definition failing_env :: environment where
  "failing_env =
     demo_env\<lparr>frame_worker := frame_worker_onmessage
        \<lparr>offscreen_context = True,
         convertToBlob = (\<lambda>img mime q. Inl (ErrorObject ''encoding failed''))\<rparr>\<rparr>"

definition demo_video :: "rat \<Rightarrow> video_element" where
  "demo_video d =
     \<lparr>v_src = ''blob:demo'', v_duration = Num d, v_videoWidth = 640, v_videoHeight = 360,
      v_currentTime = 0, v_seeking = False, v_shown = 0, v_seeked_tasks = 0\<rparr>"

definition demo_ui :: ui_state where
  "demo_ui =
     \<lparr>videoFile = Some \<lparr>file_name = ''clip.mp4'', file_type = ''video/mp4'', file_data = []\<rparr>,
      videoUrl = ''blob:demo'', isPlaying = False, isProcessing = False, progress = 0,
      alerts = []\<rparr>"

text \<open>The extraction of \<open>demo_video d\<close> with the default settings and a pool of \<open>k\<close> workers.\<close>

definition demo_start :: "nat \<Rightarrow> rat \<Rightarrow> extraction" where
  "demo_start k d =
     running_state (the (extractFrames demo_env k default_settings (demo_video d) demo_ui))"

text \<open>
  A run of the small extraction with a pool of two: the first seek is done and its
  \<open>seeked\<close> event dispatched, the first worker answers and its loop starts the seek to
  \<open>1/30\<close>, that seek is done, and the second worker answers before the \<open>seeked\<close> event is
  dispatched, so that its loop starts the seek to \<open>1/20\<close>.
\<close>

definition overtaken_state :: extraction where
  "overtaken_state =
     run demo_env [SeekDone, SeekedEvent, WorkerMessage 0, SeekDone, WorkerMessage 1]
       (demo_start 2 (1 / 15))"

text \<open>After the abort nothing is taken off the queue, stored or shown any more.\<close>

definition aborted_like :: "extraction \<Rightarrow> extraction \<Rightarrow> bool" where
  "aborted_like s s' =
     (phase s' = Aborted \<and> workers_terminated s' \<and> ui s' = ui s
      \<and> frameQueue s' = frameQueue s \<and> frames s' = frames s \<and> shifted s' = shifted s
      \<and> completedFrames s' = completedFrames s \<and> length (loops s') = length (loops s)
      \<and> (\<forall>w < length (loops s). is_threw (loops s ! w) \<longrightarrow> loops s' ! w = loops s ! w))"


section \<open>Properties of the file names\<close>

lemma split_percent_i_nonempty: "split_percent_i s \<noteq> []"
  by (induction s rule: split_percent_i.induct) (auto split: list.splits)

lemma join_Cons_char: "join r ((c # p) # ps) = c # join r (p # ps)"
  by (cases ps) simp_all

lemma join_Nil_piece: "ps \<noteq> [] \<Longrightarrow> join r ([] # ps) = r @ join r ps"
  by (cases ps) simp_all

lemma replace_percent_i_join: "replace_percent_i r s = join r (split_percent_i s)"
proof (induction s rule: split_percent_i.induct)
  case (3 c d cs)
  show ?case
  proof (cases "c = CHR ''%'' \<and> d = CHR ''i''")
    case True
    with 3 show ?thesis
      by (simp add: join_Nil_piece split_percent_i_nonempty)
  next
    case False
    obtain p ps where sp: "split_percent_i (d # cs) = p # ps"
      using split_percent_i_nonempty [of "d # cs"] by (cases "split_percent_i (d # cs)") auto
    from False have "replace_percent_i r (c # d # cs) = c # replace_percent_i r (d # cs)"
      by auto
    also have "\<dots> = c # join r (p # ps)"
      using 3 False sp by auto
    also have "\<dots> = join r (split_percent_i (c # d # cs))"
      using False sp by (auto simp: join_Cons_char)
    finally show ?thesis .
  qed
qed simp_all

lemma strip_extension_match:
  "ext \<noteq> [] \<Longrightarrow> list_all ext_char ext \<Longrightarrow> strip_extension (base @ CHR ''.'' # ext) = base"
  by (induction base) (auto simp: ext_char_def)

lemma strip_extension_no_match:
  "\<not> (\<exists>base ext. name = base @ CHR ''.'' # ext \<and> ext \<noteq> [] \<and> list_all ext_char ext)
   \<Longrightarrow> strip_extension name = name"
proof (induction name)
  case (Cons c cs)
  have no_here: "\<not> (c = CHR ''.'' \<and> cs \<noteq> [] \<and> list_all ext_char cs)"
    using Cons.prems by (metis append_Nil)
  have "\<not> (\<exists>base ext. cs = base @ CHR ''.'' # ext \<and> ext \<noteq> [] \<and> list_all ext_char ext)"
    using Cons.prems by (metis append_Cons)
  then have "strip_extension cs = cs" by (rule Cons.IH)
  with no_here show ?case by auto
qed simp

lemma final_extension_last_dot:
  "CHR ''.'' \<notin> set ext \<Longrightarrow> final_extension (base @ CHR ''.'' # ext) = ext"
proof -
  assume nd: "CHR ''.'' \<notin> set ext"
  then have "takeWhile (\<lambda>c. c \<noteq> CHR ''.'') (rev ext @ CHR ''.'' # rev base) = rev ext"
    by (intro takeWhile_tail [THEN trans] takeWhile_eq_all_conv [THEN iffD2]) auto
  then show ?thesis by (simp add: final_extension_def)
qed

lemma strip_extension_spec: "strip_extension name = spec_strip_final_extension name"
proof (cases "CHR ''.'' \<in> set name")
  case False
  then have "\<not> (\<exists>base ext. name = base @ CHR ''.'' # ext \<and> ext \<noteq> [] \<and> list_all ext_char ext)"
    by auto
  then have "strip_extension name = name" by (rule strip_extension_no_match)
  with False show ?thesis by (simp add: spec_strip_final_extension_def Let_def)
next
  case True
  then obtain base ext where dec: "name = base @ CHR ''.'' # ext" and last: "CHR ''.'' \<notin> set ext"
    using split_list_last [of "CHR ''.''" name] by blast
  have fe: "final_extension name = ext"
    using dec last by (simp add: final_extension_last_dot)
  show ?thesis
  proof (cases "ext \<noteq> [] \<and> CHR ''/'' \<notin> set ext")
    case True
    with last have "list_all ext_char ext"
      by (auto simp: list_all_iff ext_char_def)
    with True have "strip_extension name = base"
      unfolding dec by (simp add: strip_extension_match)
    moreover have "spec_strip_final_extension name = base"
      using True \<open>CHR ''.'' \<in> set name\<close> fe dec
      by (simp add: spec_strip_final_extension_def Let_def)
    ultimately show ?thesis by simp
  next
    case False
    have "\<not> (\<exists>b e. name = b @ CHR ''.'' # e \<and> e \<noteq> [] \<and> list_all ext_char e)"
    proof
      assume "\<exists>b e. name = b @ CHR ''.'' # e \<and> e \<noteq> [] \<and> list_all ext_char e"
      then obtain b e where be: "name = b @ CHR ''.'' # e" "e \<noteq> []" "list_all ext_char e"
        by blast
      then have "CHR ''.'' \<notin> set e" "CHR ''/'' \<notin> set e"
        by (auto simp: list_all_iff ext_char_def)
      then have "final_extension name = e"
        using be(1) by (simp add: final_extension_last_dot)
      with fe have "e = ext" by simp
      with False be(2) \<open>CHR ''/'' \<notin> set e\<close> show False by simp
    qed
    then have "strip_extension name = name" by (rule strip_extension_no_match)
    moreover have "spec_strip_final_extension name = name"
      using False fe by (auto simp add: spec_strip_final_extension_def Let_def)
    ultimately show ?thesis by simp
  qed
qed

lemma paddingLength_spec: "paddingLength n = spec_width n"
  by (simp add: paddingLength_def spec_width_def)

lemma padStart_spec: "padStart w CHR ''0'' s = spec_zero_pad w s"
  by (simp add: padStart_def spec_zero_pad_def)

text \<open>
  C9. For every index, frame total, format and original name, \<open>generateFilename\<close> returns
  the pattern (the original name without its final extension followed by \<open>_%i\<close> when
  \<open>useOriginalName\<close> is set, the configured \<open>filenamePattern\<close> otherwise) with every
  \<open>%i\<close> replaced by the index padded with zeros to width 2, 3, 4 or 5 according to the
  total (below 100, below 1000, below 10000, from 10000 on), then a dot and the format.
\<close>

theorem generateFilename_meets_spec:
  "generateFilename settings i n originalName = spec_generateFilename settings i n originalName"
  by (simp add: generateFilename_def spec_generateFilename_def replace_percent_i_join
      strip_extension_spec paddingLength_spec padStart_spec)

theorem generateFilename_meets_spec_witness:
  "spec_generateFilename default_settings 7 150 ''clip.mp4'' = ''frame_007.webp''
   \<and> spec_generateFilename (default_settings\<lparr>useOriginalName := True, format := Jpg\<rparr>)
         12 20000 ''my.%i.clip.mp4'' = ''my.00012.clip_00012.jpg''"
  unfolding generateFilename_meets_spec [symmetric]
  by code_simp

section \<open>Properties of file selection and download\<close>

text \<open>
  C7. \<open>handleFileSelect\<close> accepts a file exactly when its MIME type starts with \<open>video/\<close>.
  An accepted file becomes the selected video file, its object URL the video URL, playback
  and progress are reset and nothing is alerted; a rejected file raises the alert and
  leaves the selected video file and the URL as they were.
\<close>

theorem handleFileSelect_mime_prefix_only:
  "(prefix ''video/'' (file_type f) \<longrightarrow>
      handleFileSelect url (Some f) s
        = s\<lparr>videoFile := Some f, videoUrl := url f, isPlaying := False, progress := 0\<rparr>
      \<and> alerts (handleFileSelect url (Some f) s) = alerts s)
   \<and> (\<not> prefix ''video/'' (file_type f) \<longrightarrow>
      alerts (handleFileSelect url (Some f) s)
        = alerts s @ [''Please select a valid video file'']
      \<and> videoFile (handleFileSelect url (Some f) s) = videoFile s
      \<and> videoUrl (handleFileSelect url (Some f) s) = videoUrl s
      \<and> isPlaying (handleFileSelect url (Some f) s) = isPlaying s
      \<and> progress (handleFileSelect url (Some f) s) = progress s)"
  by (simp add: handleFileSelect_def)

theorem handleFileSelect_mime_prefix_only_witness:
  "videoFile (handleFileSelect (\<lambda>f. ''blob:'' @ file_name f)
       (Some \<lparr>file_name = ''a.mp4'', file_type = ''video/mp4'', file_data = []\<rparr>)
       \<lparr>videoFile = None, videoUrl = [], isPlaying = True, isProcessing = False,
        progress = Num 40, alerts = []\<rparr>)
     = Some \<lparr>file_name = ''a.mp4'', file_type = ''video/mp4'', file_data = []\<rparr>
   \<and> alerts (handleFileSelect (\<lambda>f. ''blob:'' @ file_name f)
       (Some \<lparr>file_name = ''a.mp4'', file_type = ''text/video/mp4'', file_data = []\<rparr>)
       \<lparr>videoFile = None, videoUrl = [], isPlaying = True, isProcessing = False,
        progress = Num 40, alerts = []\<rparr>)
     = [''Please select a valid video file'']"
  using handleFileSelect_mime_prefix_only
    [of "\<lparr>file_name = ''a.mp4'', file_type = ''video/mp4'', file_data = []\<rparr>"
        "\<lambda>f. ''blob:'' @ file_name f"
        "\<lparr>videoFile = None, videoUrl = [], isPlaying = True, isProcessing = False,
          progress = Num 40, alerts = []\<rparr>"]
    handleFileSelect_mime_prefix_only
    [of "\<lparr>file_name = ''a.mp4'', file_type = ''text/video/mp4'', file_data = []\<rparr>"
        "\<lambda>f. ''blob:'' @ file_name f"
        "\<lparr>videoFile = None, videoUrl = [], isPlaying = True, isProcessing = False,
          progress = Num 40, alerts = []\<rparr>"]
  by simp

text \<open>
  C10. \<open>createDownload\<close> takes the streaming path exactly when the archive is larger than
  \<open>100 * 1024 * 1024\<close> bytes, and on either path the file is named \<open>frames_\<close>, the original
  file name without its final extension, an underscore, the current timestamp and \<open>.zip\<close>.
\<close>

theorem createDownload_threshold_and_name:
  "is_streamed (createDownload now zipData originalFilename)
     = (length zipData > 100 * 1024 * 1024)
   \<and> download_name (createDownload now zipData originalFilename)
     = ''frames_'' @ spec_strip_final_extension originalFilename @ ''_''
         @ string_of_nat now @ ''.zip''"
  by (simp add: createDownload_def strip_extension_spec)

theorem createDownload_threshold_and_name_witness:
  "\<not> is_streamed (createDownload 42 [1, 2, 3] ''holiday.final.mp4'')
   \<and> download_name (createDownload 42 [1, 2, 3] ''holiday.final.mp4'')
     = ''frames_holiday.final_42.zip''"
proof -
  have name: "download_name (createDownload 42 [1, 2, 3] ''holiday.final.mp4'')
      = ''frames_holiday.final_42.zip''"
    unfolding createDownload_threshold_and_name [THEN conjunct2] by code_simp
  show ?thesis
    using name
      createDownload_threshold_and_name [of 42 "[1, 2, 3]" "''holiday.final.mp4''"]
    by simp
qed

section \<open>Properties of the workers\<close>

lemma entries_foldl_file:
  assumes filed: "\<And>zip filename data.
      entries (zip_file lib zip filename data) = (entries zip)(filename \<mapsto> data)"
    and keys: "distinct (map fst xs)"
  shows "entries (foldl (\<lambda>zip (filename, data). zip_file lib zip filename data) z xs)
           = entries z ++ map_of xs"
  using keys
proof (induction xs arbitrary: z)
  case Nil
  show ?case by simp
next
  case (Cons p xs)
  obtain k v where p: "p = (k, v)" by (cases p)
  from Cons.prems p have fresh: "map_of xs k = None" and rest: "distinct (map fst xs)"
    by (auto simp: map_of_eq_None_iff)
  have swap: "(entries z)(k \<mapsto> v) ++ map_of xs = entries z ++ map_of ((k, v) # xs)"
    using fresh by (auto simp: fun_eq_iff map_add_def split: option.splits)
  have "entries (foldl (\<lambda>zip (filename, data). zip_file lib zip filename data) z (p # xs))
      = entries (foldl (\<lambda>zip (filename, data). zip_file lib zip filename data)
          (zip_file lib z k v) xs)"
    by (simp add: p)
  also have "\<dots> = entries (zip_file lib z k v) ++ map_of xs"
    by (rule Cons.IH [OF rest])
  also have "\<dots> = entries z ++ map_of (p # xs)"
    unfolding filed p by (rule swap)
  finally show ?case .
qed


lemma entries_add_frames:
  assumes new: "entries (zip_new lib) = Map.empty"
    and filed: "\<And>zip filename data.
      entries (zip_file lib zip filename data) = (entries zip)(filename \<mapsto> data)"
    and keys: "distinct (map fst frames_rec)"
  shows "entries (add_frames lib frames_rec) = map_of frames_rec"
  unfolding add_frames_def
  by (simp add: entries_foldl_file [of entries, OF filed keys] new)

lemma card_dom_map_of_distinct:
  "distinct (map fst xs) \<Longrightarrow> card (dom (map_of xs)) = length xs"
  by (simp add: dom_map_of_conv_image_fst distinct_card flip: set_map)

text \<open>
  C1. The compression worker builds one archive object, calls \<open>zip.file\<close> for every
  (file name, data) pair of the frames record it receives, and posts what the library's
  \<open>generateAsync\<close> makes of it with DEFLATE compression. For any library whose \<open>file\<close>
  writes the entry of the given name and leaves the others alone, the archive object then
  holds exactly the entries of the record, one for each pair and none left out.
  \<open>entries\<close> reads the file entries of an archive object.
\<close>

theorem compression_worker_archives_every_frame:
  assumes new: "entries (zip_new lib) = Map.empty"
    and filed: "\<And>zip filename data.
      entries (zip_file lib zip filename data) = (entries zip)(filename \<mapsto> data)"
    and keys: "distinct (map fst frames_rec)"
  shows "entries (add_frames lib frames_rec) = map_of frames_rec
    \<and> card (dom (entries (add_frames lib frames_rec))) = length frames_rec
    \<and> compression_onmessage (Inr lib) frames_rec level
        = (case zip_generateAsync lib (add_frames lib frames_rec)
                  \<lparr>out_type = ''uint8array'', compression = ''DEFLATE'',
                   compression_level = level_or_6 level\<rparr> of
             Inl thrown \<Rightarrow> CompressError (error_message thrown)
           | Inr zipData \<Rightarrow> CompressData zipData)"
  using entries_add_frames [of entries lib frames_rec, OF new filed keys] keys
  by (simp add: card_dom_map_of_distinct compression_onmessage_def deflate_options_def)

lemma table_zip_new: "map_of (zip_new table_zip) = Map.empty"
  by (simp add: table_zip_def)

lemma table_zip_file:
  "map_of (zip_file table_zip z filename data) = (map_of z)(filename \<mapsto> data)"
  by (simp add: table_zip_def update_conv')

theorem compression_worker_archives_every_frame_witness:
  "map_of (add_frames table_zip [(''frame_00.webp'', [1, 2]), (''frame_01.webp'', [3])])
     = map_of [(''frame_00.webp'', [1, 2]), (''frame_01.webp'', [3])]
   \<and> card (dom (map_of (add_frames table_zip
         [(''frame_00.webp'', [1, 2]), (''frame_01.webp'', [3])]))) = 2
   \<and> (\<exists>zipData. compression_onmessage (Inr table_zip)
         [(''frame_00.webp'', [1, 2]), (''frame_01.webp'', [3])] None = CompressData zipData)"
proof -
  have keys: "distinct (map fst [(''frame_00.webp'', [1, 2 :: 8 word]), (''frame_01.webp'', [3])])"
    by simp
  show ?thesis
    using compression_worker_archives_every_frame
      [of map_of table_zip "[(''frame_00.webp'', [1, 2]), (''frame_01.webp'', [3])]" None,
       OF table_zip_new table_zip_file keys]
    by (simp add: table_zip_def)
qed

lemma frame_worker_png_webp:
  "fmt \<noteq> Jpg \<Longrightarrow>
   frame_worker_onmessage (browser_canvas encode)
       \<lparr>imageData = img, req_format = fmt, req_quality = q, frameNumber = k\<rparr>
     = WorkerSuccess k (encode img (format_mime fmt) (if fmt = Png then None else Some q))"
  by (cases fmt)
    (simp_all add: frame_worker_onmessage_def browser_canvas_def mimeType_def
      serialisation_type_def encoder_types_def)

text \<open>
  C2. The encode worker asks for the type \<open>image/\<close> followed by the format and posts back
  the bytes it is given. For \<open>png\<close> and \<open>webp\<close> that is the format's MIME type
  (\<open>frame_worker_png_webp\<close>). For \<open>jpg\<close> the type asked for is \<open>image/jpg\<close>, which is
  not the MIME type of JPEG and not a type of any canvas encoder, so the browser encodes
  the frame as PNG: the bytes posted back are not in the chosen format.
\<close>

theorem frame_worker_jpg_request_gives_png:
  "mimeType Jpg = ''image/jpg''
   \<and> mimeType Jpg \<noteq> format_mime Jpg
   \<and> serialisation_type encoder_types (mimeType Jpg) = ''image/png''
   \<and> frame_worker_onmessage (browser_canvas encode)
         \<lparr>imageData = img, req_format = Jpg, req_quality = q, frameNumber = k\<rparr>
       = WorkerSuccess k (encode img ''image/png'' (Some q))"
  by (simp add: frame_worker_onmessage_def browser_canvas_def mimeType_def
      serialisation_type_def encoder_types_def)

section \<open>Properties of the frame queue\<close>

lemma frameQueue_loop_unfold:
  "frameQueue_loop rnd total_n d i q (Num t) =
     (if js_less (Num (of_nat (length q))) total_n \<and> js_less (Num t) d
      then frameQueue_loop rnd total_n d i (q @ [t]) (js_add rnd (Num t) i)
      else Some q)"
  by (subst frameQueue_loop.simps) simp

lemma frameQueue_loop_not_finite:
  assumes "\<And>t. cur \<noteq> Num t"
  shows "frameQueue_loop rnd total_n d i q cur = Some q"
proof (cases cur)
  case (Num t)
  with assms [of t] show ?thesis by simp
next
  case Infinity
  then show ?thesis by (subst frameQueue_loop.simps) simp
next
  case NaN
  then show ?thesis by (subst frameQueue_loop.simps) simp
qed

text \<open>
  With a finite total the loop comes to an end, whatever the duration, the interval and
  the rounding: the queue grows by one in every pass and the total bounds its length.
\<close>

lemma frameQueue_loop_returns:
  "\<exists>q'. frameQueue_loop rnd (Num r) d i q cur = Some q'
        \<and> length q' \<le> max (length q) (nat \<lceil>r\<rceil>)
        \<and> (\<forall>x \<in> set q'. x \<in> set q \<or> js_less (Num x) d)"
proof (induction "nat \<lceil>r\<rceil> - length q" arbitrary: q cur rule: less_induct)
  case less
  show ?case
  proof (cases "\<exists>t. cur = Num t")
    case False
    then have "frameQueue_loop rnd (Num r) d i q cur = Some q"
      by (intro frameQueue_loop_not_finite) simp
    then show ?thesis by simp
  next
    case True
    then obtain t where cur: "cur = Num t" ..
    show ?thesis
    proof (cases "js_less (Num (of_nat (length q))) (Num r) \<and> js_less (Num t) d")
      case False
      then have "frameQueue_loop rnd (Num r) d i q cur = Some q"
        unfolding cur by (subst frameQueue_loop_unfold) auto
      then show ?thesis by simp
    next
      case True
      then have "of_nat (length q) < r" by simp
      then have "int (length q) < \<lceil>r\<rceil>" by (simp add: less_ceiling_iff)
      then have room: "length q < nat \<lceil>r\<rceil>" by simp
      then have "nat \<lceil>r\<rceil> - length (q @ [t]) < nat \<lceil>r\<rceil> - length q" by simp
      from less [OF this, of "js_add rnd (Num t) i"] obtain q'
        where q': "frameQueue_loop rnd (Num r) d i (q @ [t]) (js_add rnd (Num t) i) = Some q'"
          "length q' \<le> max (length (q @ [t])) (nat \<lceil>r\<rceil>)"
          "\<forall>x \<in> set q'. x \<in> set (q @ [t]) \<or> js_less (Num x) d"
        by blast
      have "frameQueue_loop rnd (Num r) d i q cur = Some q'"
        unfolding cur using True q'(1) by (subst frameQueue_loop_unfold) simp
      moreover have "length q' \<le> max (length q) (nat \<lceil>r\<rceil>)"
        using q'(2) room by simp
      moreover have "\<forall>x \<in> set q'. x \<in> set q \<or> js_less (Num x) d"
        using q'(3) True by auto
      ultimately show ?thesis by blast
    qed
  qed
qed

lemma build_frameQueue_finite_total:
  "\<exists>q. build_frameQueue rnd (Num (of_nat n)) d i = Some q
       \<and> length q \<le> n \<and> (\<forall>t \<in> set q. js_less (Num t) d)"
  using frameQueue_loop_returns [of rnd "of_nat n" d i "[]" "Num 0"]
  by (simp add: build_frameQueue_def)

lemma build_frameQueue_NaN_total: "build_frameQueue rnd NaN d i = Some []"
  unfolding build_frameQueue_def by (subst frameQueue_loop_unfold) simp

text \<open>
  With an infinite total and an infinite duration both tests of the loop hold in every
  pass: the loop never returns.
\<close>

lemma frameQueue_loop_unbounded:
  "frameQueue_loop rnd total_n d i q cur = Some y \<Longrightarrow>
   \<not> (total_n = Infinity \<and> d = Infinity \<and> (\<exists>t. cur = Num t) \<and> (\<exists>r. i = Num r))"
proof (rule frameQueue_loop.raw_induct
    [where P = "\<lambda>rnd total_n d i q cur y.
       \<not> (total_n = Infinity \<and> d = Infinity \<and> (\<exists>t. cur = Num t) \<and> (\<exists>r. i = Num r))"])
  fix f :: "(rat \<Rightarrow> rat) \<Rightarrow> js_number \<Rightarrow> js_number \<Rightarrow> js_number \<Rightarrow> rat list \<Rightarrow> js_number
     \<Rightarrow> rat list option"
  fix rnd total_n d i q cur y
  assume IH: "\<And>rnd total_n d i q cur y. f rnd total_n d i q cur = Some y \<Longrightarrow>
      \<not> (total_n = Infinity \<and> d = Infinity \<and> (\<exists>t. cur = Num t) \<and> (\<exists>r. i = Num r))"
    and body: "(case cur of
        Num t \<Rightarrow>
          if js_less (Num (of_nat (length q))) total_n \<and> js_less cur d
          then f rnd total_n d i (q @ [t]) (js_add rnd cur i)
          else Some q
      | _ \<Rightarrow> Some q) = Some y"
  show "\<not> (total_n = Infinity \<and> d = Infinity \<and> (\<exists>t. cur = Num t) \<and> (\<exists>r. i = Num r))"
  proof
    assume inf: "total_n = Infinity \<and> d = Infinity \<and> (\<exists>t. cur = Num t) \<and> (\<exists>r. i = Num r)"
    then obtain t r where cur: "cur = Num t" and i: "i = Num r" by blast
    from body inf cur i
    have "f rnd Infinity Infinity (Num r) (q @ [t]) (Num (rnd (t + r))) = Some y"
      by simp
    from IH [OF this] show False by simp
  qed
qed

lemma frameQueue_loop_never_returns:
  "frameQueue_loop rnd Infinity Infinity (Num r) q (Num t) = None"
proof (cases "frameQueue_loop rnd Infinity Infinity (Num r) q (Num t)")
  case (Some y)
  from frameQueue_loop_unbounded [OF this] show ?thesis by simp
qed simp

section \<open>The work left shrinks\<close>

lemma sum_weight_update:
  "w < length ls \<Longrightarrow>
   sum_list (map f (ls[w := l])) + f (ls ! w) = sum_list (map f ls) + (f l :: nat)"
proof (induction ls arbitrary: w)
  case Nil
  then show ?case by simp
next
  case (Cons a ls)
  then show ?case by (cases w) auto
qed

lemma remaining_work_loop_head:
  assumes "w < length (loops s)"
  shows "remaining_work (loop_head w s) + loop_weight (loops s ! w) \<le> remaining_work s"
proof (cases "frameQueue s")
  case Nil
  then show ?thesis
    using sum_weight_update [OF assms, of loop_weight Finished]
    by (simp add: loop_head_def remaining_work_def)
next
  case (Cons t rest)
  then show ?thesis
    using sum_weight_update [OF assms, of loop_weight "AwaitSeeked t"]
    by (simp add: loop_head_def remaining_work_def set_currentTime_def)
qed

lemma sum_weight_update_le:
  "w < length ls \<Longrightarrow> f l \<le> f (ls ! w) \<Longrightarrow>
   sum_list (map f (ls[w := l])) \<le> sum_list (map f ls :: nat list)"
  using sum_weight_update [of w ls f l] by simp

lemma remaining_work_capture_frame:
  "remaining_work (capture_frame env w s) \<le> remaining_work s"
proof (cases "w < length (loops s)")
  case False
  then show ?thesis by (simp add: capture_frame_def)
next
  case True
  show ?thesis
  proof (cases "loops s ! w")
    case (AwaitSeeked t)
    with True show ?thesis
      by (auto simp: capture_frame_def remaining_work_def Let_def sum_weight_update_le
          split: prod.splits)
  qed (use True in \<open>simp_all add: capture_frame_def\<close>)
qed

lemma remaining_work_captures:
  "remaining_work (foldl (\<lambda>s' w. capture_frame env w s') s ws) \<le> remaining_work s"
proof (induction ws arbitrary: s)
  case Nil
  show ?case by simp
next
  case (Cons w ws)
  have "remaining_work (foldl (\<lambda>s' w. capture_frame env w s') (capture_frame env w s) ws)
      \<le> remaining_work (capture_frame env w s)"
    by (rule Cons.IH)
  also have "\<dots> \<le> remaining_work s" by (rule remaining_work_capture_frame)
  finally show ?case by simp
qed

lemma remaining_work_dispatch_seeked:
  "0 < v_seeked_tasks (video s) \<Longrightarrow> remaining_work (dispatch_seeked env s) < remaining_work s"
proof -
  assume tasks: "0 < v_seeked_tasks (video s)"
  let ?s1 = "s\<lparr>video := (video s)\<lparr>v_seeked_tasks := v_seeked_tasks (video s) - 1\<rparr>,
                seeked_listeners := []\<rparr>"
  have "remaining_work (dispatch_seeked env s) \<le> remaining_work ?s1"
    unfolding dispatch_seeked_def by (rule remaining_work_captures)
  also have "\<dots> < remaining_work s"
    using tasks by (simp add: remaining_work_def)
  finally show ?thesis .
qed

lemma remaining_work_worker_message:
  "worker_message env w s = s \<or> remaining_work (worker_message env w s) < remaining_work s"
proof (cases "workers_terminated s \<or> w \<ge> length (loops s)")
  case True
  then show ?thesis by (auto simp: worker_message_def)
next
  case False
  then have w: "w < length (loops s)" and alive: "\<not> workers_terminated s" by auto
  show ?thesis
  proof (cases "loops s ! w")
    case (AwaitEncode t req)
    show ?thesis
    proof (cases "frame_worker env req")
      case (WorkerError msg)
      have "remaining_work (worker_message env w s) < remaining_work s"
        using w alive AwaitEncode WorkerError
          sum_weight_update [OF w, of loop_weight "Threw (ErrorObject msg)"]
        by (simp add: worker_message_def remaining_work_def)
      then show ?thesis ..
    next
      case (WorkerSuccess n frameData)
      define s1 where "s1 = s\<lparr>frames := AList.update
            (generateFilename (ex_settings s) (completedFrames s)
               (compared_total (total_frames s)) (v_src (video s)))
            frameData (frames s),
          completedFrames := completedFrames s + 1,
          ui := (ui s)\<lparr>progress := progress_percent (to_double env) (completedFrames s + 1)
                                    (total_frames s)\<rparr>\<rparr>"
      have same: "remaining_work s1 = remaining_work s" "loops s1 = loops s"
        by (simp_all add: s1_def remaining_work_def)
      have "worker_message env w s = loop_head w s1"
        using w alive AwaitEncode WorkerSuccess by (simp add: worker_message_def s1_def Let_def)
      moreover have "remaining_work (loop_head w s1) + loop_weight (loops s1 ! w) \<le> remaining_work s1"
        using w same by (intro remaining_work_loop_head) simp
      ultimately have "remaining_work (worker_message env w s) < remaining_work s"
        using same AwaitEncode by simp
      then show ?thesis ..
    qed
  qed (use w alive in \<open>simp_all add: worker_message_def\<close>)
qed

lemma remaining_work_finally_reset [simp]:
  "remaining_work (finally_reset s) = remaining_work s"
  by (simp add: finally_reset_def remaining_work_def)

lemma remaining_work_abort:
  "remaining_work (abort s) + phase_weight (phase s) = remaining_work s"
  by (simp add: abort_def finally_reset_def remaining_work_def)

lemma remaining_work_downloaded:
  "remaining_work (finally_reset (s\<lparr>phase := Downloaded d\<rparr>)) + phase_weight (phase s)
     = remaining_work s"
  by (simp add: finally_reset_def remaining_work_def)

lemma remaining_work_compression_message:
  "compression_message env s = s
   \<or> remaining_work (compression_message env s) < remaining_work s"
proof (cases "phase s = Compressing")
  case False
  then show ?thesis by (simp add: compression_message_def)
next
  case True
  have "remaining_work (abort s) < remaining_work s"
    using True remaining_work_abort [of s] by simp
  moreover have "remaining_work (finally_reset (s\<lparr>phase := Downloaded d\<rparr>)) < remaining_work s" for d
    using True remaining_work_downloaded [where s = s and d = d] by simp
  ultimately have "remaining_work (compression_message env s) < remaining_work s"
    using True by (simp add: compression_message_def Let_def split: option.splits)
  then show ?thesis ..
qed

lemma remaining_work_handle:
  "handle env e s = s \<or> remaining_work (handle env e s) < remaining_work s"
proof (cases e)
  case SeekDone
  then show ?thesis by (simp add: remaining_work_def seek_done_def)
next
  case SeekedEvent
  then show ?thesis using remaining_work_dispatch_seeked [of s env] by auto
next
  case (WorkerMessage w)
  then show ?thesis using remaining_work_worker_message [of env w s] by simp
next
  case CompressionMessage
  then show ?thesis using remaining_work_compression_message [of env s] by simp
qed

lemma remaining_work_settle:
  "settle s = s \<or> remaining_work (settle s) < remaining_work s"
proof (cases "phase s = Extracting")
  case False
  then show ?thesis by (simp add: settle_def)
next
  case True
  have "remaining_work (abort s) < remaining_work s"
    using True remaining_work_abort [of s] by simp
  moreover have "remaining_work (s\<lparr>phase := Compressing\<rparr>) < remaining_work s"
    using True by (simp add: remaining_work_def)
  ultimately show ?thesis by (simp add: settle_def)
qed

lemma remaining_work_step:
  "step env e s = s \<or> remaining_work (step env e s) < remaining_work s"
  unfolding step_def
  using remaining_work_handle [of env e s] remaining_work_settle [of "handle env e s"]
  by (metis less_trans)

section \<open>Consistency is kept\<close>

lemma wired_uptoI:
  assumes "\<And>w. w < length (loops s) \<Longrightarrow> is_await_seeked (loops s ! w)
             \<Longrightarrow> w \<in> set (seeked_listeners s)"
    and "\<And>w. w \<in> set (seeked_listeners s) \<Longrightarrow> w < length (loops s)"
    and "seeked_listeners s \<noteq> [] \<Longrightarrow> v_seeking (video s) \<or> v_seeked_tasks (video s) > 0"
    and "\<And>w. w < length (loops s) \<Longrightarrow> loops s ! w = NotStarted \<Longrightarrow> j \<le> w"
    and "phase s = Extracting \<Longrightarrow> \<not> workers_terminated s"
  shows "wired_upto j s"
  unfolding wired_upto_def by (intro conjI allI impI ballI) (rule assms, assumption+)+

lemma wired_upto_listener:
  "wired_upto j s \<Longrightarrow> w < length (loops s) \<Longrightarrow> is_await_seeked (loops s ! w)
   \<Longrightarrow> w \<in> set (seeked_listeners s)"
  by (simp add: wired_upto_def)

lemma wired_upto_in_pool:
  "wired_upto j s \<Longrightarrow> w \<in> set (seeked_listeners s) \<Longrightarrow> w < length (loops s)"
  by (simp add: wired_upto_def)

lemma wired_upto_seek_pending:
  "wired_upto j s \<Longrightarrow> seeked_listeners s \<noteq> []
   \<Longrightarrow> v_seeking (video s) \<or> v_seeked_tasks (video s) > 0"
  by (simp add: wired_upto_def)

lemma wired_upto_called:
  "wired_upto j s \<Longrightarrow> w < length (loops s) \<Longrightarrow> loops s ! w = NotStarted \<Longrightarrow> j \<le> w"
  by (simp add: wired_upto_def)

lemma wired_upto_alive:
  "wired_upto j s \<Longrightarrow> phase s = Extracting \<Longrightarrow> \<not> workers_terminated s"
  by (simp add: wired_upto_def)

text \<open>Fields that the loops do not look at may change freely.\<close>

lemma wired_upto_cong:
  assumes "wired_upto j s"
    and "loops s' = loops s" and "seeked_listeners s' = seeked_listeners s"
    and "video s' = video s"
    and "phase s' = Extracting \<Longrightarrow> phase s = Extracting \<and> \<not> workers_terminated s'"
  shows "wired_upto j s'"
  using assms unfolding wired_upto_def by auto

lemma capture_frame_idle:
  "\<not> is_await_seeked (loops s ! w) \<Longrightarrow> capture_frame env w s = s"
  by (cases "loops s ! w") (simp_all add: capture_frame_def)

lemma capture_frame_only_loops:
  "\<exists>l. capture_frame env w s = s\<lparr>loops := (loops s)[w := l]\<rparr>
       \<and> (is_await_seeked l \<longrightarrow> w \<ge> length (loops s))
       \<and> (l = NotStarted \<longrightarrow> loops s ! w = NotStarted)
       \<and> (\<not> is_await_seeked (loops s ! w) \<longrightarrow> l = loops s ! w)"
proof (cases "w < length (loops s) \<and> is_await_seeked (loops s ! w)")
  case False
  have same: "s\<lparr>loops := (loops s)[w := loops s ! w]\<rparr> = s" by simp
  from False have "capture_frame env w s = s"
    by (auto simp: capture_frame_idle) (simp add: capture_frame_def)
  with same have "capture_frame env w s = s\<lparr>loops := (loops s)[w := loops s ! w]\<rparr>"
    by simp
  with False show ?thesis by (intro exI [of _ "loops s ! w"]) auto
next
  case True
  then obtain t where t: "loops s ! w = AwaitSeeked t"
    by (cases "loops s ! w") simp_all
  obtain tw th
    where ts: "target_size (to_double env) (maxWidth (ex_settings s)) (video s) = (tw, th)"
    by (cases "target_size (to_double env) (maxWidth (ex_settings s)) (video s)")
  define l where "l = (if \<not> document_context env then Threw (ErrorObject ''Failed to get context'')
    else if tw = 0 \<or> th = 0 then Threw (ErrorObject ''IndexSizeError'')
    else AwaitEncode t \<lparr>imageData = \<lparr>img_width = tw, img_height = th,
                                      img_position = v_shown (video s)\<rparr>,
                        req_format = format (ex_settings s),
                        req_quality = quality (ex_settings s),
                        frameNumber = completedFrames s\<rparr>)"
  have "capture_frame env w s = s\<lparr>loops := (loops s)[w := l]\<rparr>"
    using True t ts by (simp add: capture_frame_def l_def)
  moreover have "\<not> is_await_seeked l" "l \<noteq> NotStarted"
    by (simp_all add: l_def)
  ultimately show ?thesis using t by (intro exI [of _ l]) simp
qed

text \<open>
  Dispatching \<open>seeked\<close> to the listeners \<open>ws\<close> changes the loops only: no loop in \<open>ws\<close> waits
  for \<open>seeked\<close> afterwards, and no other loop is touched.
\<close>

lemma captures_only_loops:
  "\<exists>ls. foldl (\<lambda>s' w. capture_frame env w s') s ws = s\<lparr>loops := ls\<rparr>
        \<and> length ls = length (loops s)
        \<and> (\<forall>w < length ls. is_await_seeked (ls ! w)
              \<longrightarrow> is_await_seeked (loops s ! w) \<and> w \<notin> set ws)
        \<and> (\<forall>w < length ls. ls ! w = NotStarted \<longrightarrow> loops s ! w = NotStarted)
        \<and> (\<forall>w < length ls. \<not> is_await_seeked (loops s ! w) \<longrightarrow> ls ! w = loops s ! w)"
proof (induction ws arbitrary: s)
  case Nil
  show ?case by (intro exI [of _ "loops s"]) simp
next
  case (Cons a ws)
  obtain l where l: "capture_frame env a s = s\<lparr>loops := (loops s)[a := l]\<rparr>"
      "is_await_seeked l \<longrightarrow> a \<ge> length (loops s)"
      "l = NotStarted \<longrightarrow> loops s ! a = NotStarted"
      "\<not> is_await_seeked (loops s ! a) \<longrightarrow> l = loops s ! a"
    using capture_frame_only_loops [of env a s] by blast
  let ?s1 = "s\<lparr>loops := (loops s)[a := l]\<rparr>"
  obtain ls where ls: "foldl (\<lambda>s' w. capture_frame env w s') ?s1 ws = ?s1\<lparr>loops := ls\<rparr>"
      "length ls = length (loops ?s1)"
      "\<forall>w < length ls. is_await_seeked (ls ! w)
          \<longrightarrow> is_await_seeked (loops ?s1 ! w) \<and> w \<notin> set ws"
      "\<forall>w < length ls. ls ! w = NotStarted \<longrightarrow> loops ?s1 ! w = NotStarted"
      "\<forall>w < length ls. \<not> is_await_seeked (loops ?s1 ! w) \<longrightarrow> ls ! w = loops ?s1 ! w"
    using Cons.IH [of ?s1] by blast
  have "foldl (\<lambda>s' w. capture_frame env w s') s (a # ws) = s\<lparr>loops := ls\<rparr>"
    using l(1) ls(1) by simp
  moreover have n: "length ls = length (loops s)"
    using ls(2) by simp
  moreover have "\<forall>w < length ls. is_await_seeked (ls ! w)
      \<longrightarrow> is_await_seeked (loops s ! w) \<and> w \<notin> set (a # ws)"
  proof (intro allI impI)
    fix w assume w: "w < length ls" and aw: "is_await_seeked (ls ! w)"
    with ls(3) have mid: "is_await_seeked ((loops s)[a := l] ! w)" and nws: "w \<notin> set ws"
      by auto
    have "w \<noteq> a"
    proof
      assume "w = a"
      with mid w n have "is_await_seeked l" by simp
      with l(2) w n \<open>w = a\<close> show False by simp
    qed
    with mid nws show "is_await_seeked (loops s ! w) \<and> w \<notin> set (a # ws)" by simp
  qed
  moreover have "\<forall>w < length ls. ls ! w = NotStarted \<longrightarrow> loops s ! w = NotStarted"
  proof (intro allI impI)
    fix w assume w: "w < length ls" and ns: "ls ! w = NotStarted"
    with ls(4) have "(loops s)[a := l] ! w = NotStarted" by simp
    with l(3) w n show "loops s ! w = NotStarted"
      by (cases "w = a") simp_all
  qed
  moreover have "\<forall>w < length ls. \<not> is_await_seeked (loops s ! w) \<longrightarrow> ls ! w = loops s ! w"
  proof (intro allI impI)
    fix w assume w: "w < length ls" and na: "\<not> is_await_seeked (loops s ! w)"
    have upd: "(loops s)[a := l] ! w = loops s ! w"
      using l(4) w n na by (cases "w = a") simp_all
    with na ls(5) w show "ls ! w = loops s ! w" by simp
  qed
  ultimately show ?case by blast
qed

lemma wired_upto_dispatch_seeked:
  assumes "wired_upto j s"
  shows "wired_upto j (dispatch_seeked env s)"
proof -
  let ?s1 = "s\<lparr>video := (video s)\<lparr>v_seeked_tasks := v_seeked_tasks (video s) - 1\<rparr>,
                seeked_listeners := []\<rparr>"
  obtain ls where ls: "dispatch_seeked env s = ?s1\<lparr>loops := ls\<rparr>"
      "length ls = length (loops ?s1)"
      "\<forall>w < length ls. is_await_seeked (ls ! w)
          \<longrightarrow> is_await_seeked (loops ?s1 ! w) \<and> w \<notin> set (seeked_listeners s)"
      "\<forall>w < length ls. ls ! w = NotStarted \<longrightarrow> loops ?s1 ! w = NotStarted"
    unfolding dispatch_seeked_def
    using captures_only_loops [of env ?s1 "seeked_listeners s"] by blast
  have n: "length ls = length (loops s)" using ls(2) by simp
  show ?thesis
    unfolding ls(1)
  proof (rule wired_uptoI)
    fix w assume w: "w < length (loops (?s1\<lparr>loops := ls\<rparr>))"
      and aw: "is_await_seeked (loops (?s1\<lparr>loops := ls\<rparr>) ! w)"
    from w aw ls(3) have "is_await_seeked (loops s ! w)" "w \<notin> set (seeked_listeners s)"
      by simp_all
    with wired_upto_listener [OF assms, of w] w n
    show "w \<in> set (seeked_listeners (?s1\<lparr>loops := ls\<rparr>))" by simp
  next
    fix w assume "w \<in> set (seeked_listeners (?s1\<lparr>loops := ls\<rparr>))"
    then show "w < length (loops (?s1\<lparr>loops := ls\<rparr>))" by simp
  next
    assume "seeked_listeners (?s1\<lparr>loops := ls\<rparr>) \<noteq> []"
    then show "v_seeking (video (?s1\<lparr>loops := ls\<rparr>))
        \<or> v_seeked_tasks (video (?s1\<lparr>loops := ls\<rparr>)) > 0" by simp
  next
    fix w assume w: "w < length (loops (?s1\<lparr>loops := ls\<rparr>))"
      and ns: "loops (?s1\<lparr>loops := ls\<rparr>) ! w = NotStarted"
    from w ns ls(4) have "loops s ! w = NotStarted" by simp
    with wired_upto_called [OF assms, of w] w n show "j \<le> w" by simp
  next
    assume "phase (?s1\<lparr>loops := ls\<rparr>) = Extracting"
    with wired_upto_alive [OF assms] show "\<not> workers_terminated (?s1\<lparr>loops := ls\<rparr>)"
      by simp
  qed
qed

lemma wired_upto_loop_head:
  assumes wired: "wired_upto j s" and w: "w < length (loops s)" and wj: "w \<le> j"
  shows "wired_upto (max j (Suc w)) (loop_head w s)"
proof (rule wired_uptoI)
  fix x assume x: "x < length (loops (loop_head w s))"
    and ax: "is_await_seeked (loops (loop_head w s) ! x)"
  show "x \<in> set (seeked_listeners (loop_head w s))"
  proof (cases "x = w")
    case True
    with x ax w show ?thesis
      by (cases "frameQueue s") (simp_all add: loop_head_def)
  next
    case False
    with x ax have "x < length (loops s)" "is_await_seeked (loops s ! x)"
      by (cases "frameQueue s"; simp add: loop_head_def)+
    then have "x \<in> set (seeked_listeners s)" by (rule wired_upto_listener [OF wired])
    then show ?thesis by (cases "frameQueue s") (simp_all add: loop_head_def)
  qed
next
  fix x assume "x \<in> set (seeked_listeners (loop_head w s))"
  then have "x \<in> set (seeked_listeners s) \<or> x = w"
    by (cases "frameQueue s") (auto simp: loop_head_def)
  with wired_upto_in_pool [OF wired, of x] w have "x < length (loops s)" by auto
  then show "x < length (loops (loop_head w s))"
    by (cases "frameQueue s") (simp_all add: loop_head_def)
next
  assume ne: "seeked_listeners (loop_head w s) \<noteq> []"
  show "v_seeking (video (loop_head w s)) \<or> v_seeked_tasks (video (loop_head w s)) > 0"
  proof (cases "frameQueue s")
    case Nil
    with ne have "seeked_listeners s \<noteq> []" by (simp add: loop_head_def)
    with wired_upto_seek_pending [OF wired] Nil show ?thesis by (simp add: loop_head_def)
  next
    case (Cons t rest)
    then show ?thesis by (simp add: loop_head_def set_currentTime_def)
  qed
next
  fix x assume x: "x < length (loops (loop_head w s))"
    and ns: "loops (loop_head w s) ! x = NotStarted"
  have xw: "x \<noteq> w"
  proof
    assume "x = w"
    with ns w show False by (cases "frameQueue s") (simp_all add: loop_head_def)
  qed
  with x ns have "x < length (loops s)" "loops s ! x = NotStarted"
    by (cases "frameQueue s"; simp add: loop_head_def)+
  then have "j \<le> x" by (rule wired_upto_called [OF wired])
  with wj xw show "max j (Suc w) \<le> x" by simp
next
  assume "phase (loop_head w s) = Extracting"
  then have "phase s = Extracting" by (cases "frameQueue s") (simp_all add: loop_head_def)
  with wired_upto_alive [OF wired] show "\<not> workers_terminated (loop_head w s)"
    by (cases "frameQueue s") (simp_all add: loop_head_def)
qed

lemma wired_upto_worker_message:
  assumes "wired_upto (length (loops s)) s"
  shows "wired_upto (length (loops (worker_message env w s))) (worker_message env w s)"
proof (cases "workers_terminated s \<or> w \<ge> length (loops s)")
  case True
  with assms show ?thesis by (auto simp: worker_message_def)
next
  case False
  then have w: "w < length (loops s)" and alive: "\<not> workers_terminated s" by auto
  show ?thesis
  proof (cases "loops s ! w")
    case (AwaitEncode t req)
    show ?thesis
    proof (cases "frame_worker env req")
      case (WorkerError msg)
      have eq: "worker_message env w s = s\<lparr>loops := (loops s)[w := Threw (ErrorObject msg)]\<rparr>"
        using w alive AwaitEncode WorkerError by (simp add: worker_message_def)
      show ?thesis
        unfolding eq
      proof (rule wired_uptoI)
        fix x assume "x < length (loops (s\<lparr>loops := (loops s)[w := Threw (ErrorObject msg)]\<rparr>))"
          and "is_await_seeked (loops (s\<lparr>loops := (loops s)[w := Threw (ErrorObject msg)]\<rparr>) ! x)"
        then have "x < length (loops s)" "is_await_seeked (loops s ! x)"
          by (cases "x = w"; simp)+
        then show "x \<in> set (seeked_listeners (s\<lparr>loops := (loops s)[w := Threw (ErrorObject msg)]\<rparr>))"
          using wired_upto_listener [OF assms, of x] by simp
      next
        fix x assume "x \<in> set (seeked_listeners (s\<lparr>loops := (loops s)[w := Threw (ErrorObject msg)]\<rparr>))"
        then show "x < length (loops (s\<lparr>loops := (loops s)[w := Threw (ErrorObject msg)]\<rparr>))"
          using wired_upto_in_pool [OF assms, of x] by simp
      next
        assume "seeked_listeners (s\<lparr>loops := (loops s)[w := Threw (ErrorObject msg)]\<rparr>) \<noteq> []"
        then show "v_seeking (video (s\<lparr>loops := (loops s)[w := Threw (ErrorObject msg)]\<rparr>))
          \<or> v_seeked_tasks (video (s\<lparr>loops := (loops s)[w := Threw (ErrorObject msg)]\<rparr>)) > 0"
          using wired_upto_seek_pending [OF assms] by simp
      next
        fix x assume "x < length (loops (s\<lparr>loops := (loops s)[w := Threw (ErrorObject msg)]\<rparr>))"
          and "loops (s\<lparr>loops := (loops s)[w := Threw (ErrorObject msg)]\<rparr>) ! x = NotStarted"
        then have "x < length (loops s)" "loops s ! x = NotStarted"
          by (cases "x = w"; simp)+
        then show "length (loops (s\<lparr>loops := (loops s)[w := Threw (ErrorObject msg)]\<rparr>)) \<le> x"
          using wired_upto_called [OF assms, of x] by simp
      next
        assume "phase (s\<lparr>loops := (loops s)[w := Threw (ErrorObject msg)]\<rparr>) = Extracting"
        then show "\<not> workers_terminated (s\<lparr>loops := (loops s)[w := Threw (ErrorObject msg)]\<rparr>)"
          using wired_upto_alive [OF assms] by simp
      qed
    next
      case (WorkerSuccess n frameData)
      define s1 where "s1 = s\<lparr>frames := AList.update
            (generateFilename (ex_settings s) (completedFrames s)
               (compared_total (total_frames s)) (v_src (video s)))
            frameData (frames s),
          completedFrames := completedFrames s + 1,
          ui := (ui s)\<lparr>progress := progress_percent (to_double env) (completedFrames s + 1)
                                    (total_frames s)\<rparr>\<rparr>"
      have eq: "worker_message env w s = loop_head w s1"
        using w alive AwaitEncode WorkerSuccess by (simp add: worker_message_def s1_def Let_def)
      have "wired_upto (length (loops s)) s1"
        using assms
      proof (rule wired_upto_cong)
        show "phase s1 = Extracting \<Longrightarrow> phase s = Extracting \<and> \<not> workers_terminated s1"
          using wired_upto_alive [OF assms] by (simp add: s1_def)
      qed (simp_all add: s1_def)
      then have "wired_upto (length (loops s1)) s1" by (simp add: s1_def)
      moreover have "w < length (loops s1)" using w by (simp add: s1_def)
      ultimately have "wired_upto (max (length (loops s1)) (Suc w)) (loop_head w s1)"
        by (intro wired_upto_loop_head) simp_all
      moreover have "length (loops (loop_head w s1)) = length (loops s1)"
        by (simp add: loop_head_def split: list.splits)
      moreover have "max (length (loops s1)) (Suc w) = length (loops s1)"
        using w by (simp add: s1_def)
      ultimately show ?thesis
        unfolding eq by simp
    qed
  qed (use w alive assms in \<open>simp_all add: worker_message_def\<close>)
qed

lemma wired_upto_abort:
  "wired_upto j s \<Longrightarrow> wired_upto j (abort s)"
  by (erule wired_upto_cong) (simp_all add: abort_def finally_reset_def)

lemma wired_upto_downloaded:
  "wired_upto j s \<Longrightarrow> wired_upto j (finally_reset (s\<lparr>phase := Downloaded d\<rparr>))"
  by (erule wired_upto_cong) (simp_all add: finally_reset_def)

lemma wired_upto_compression_message:
  "wired_upto j s \<Longrightarrow> wired_upto j (compression_message env s)"
  by (simp add: compression_message_def Let_def wired_upto_abort wired_upto_downloaded
      split: option.splits)

lemma length_loops_dispatch_seeked [simp]:
  "length (loops (dispatch_seeked env s)) = length (loops s)"
proof -
  let ?s1 = "s\<lparr>video := (video s)\<lparr>v_seeked_tasks := v_seeked_tasks (video s) - 1\<rparr>,
                seeked_listeners := []\<rparr>"
  obtain ls where "dispatch_seeked env s = ?s1\<lparr>loops := ls\<rparr>" "length ls = length (loops ?s1)"
    unfolding dispatch_seeked_def
    using captures_only_loops [of env ?s1 "seeked_listeners s"] by blast
  then show ?thesis by simp
qed

lemma length_loops_compression_message [simp]:
  "length (loops (compression_message env s)) = length (loops s)"
  by (simp add: compression_message_def Let_def abort_def finally_reset_def split: option.splits)

lemma wired_handle:
  assumes "wired_upto (length (loops s)) s"
  shows "wired_upto (length (loops (handle env e s))) (handle env e s)"
proof (cases e)
  case SeekDone
  show ?thesis
  proof (cases "v_seeking (video s)")
    case False
    with SeekDone assms show ?thesis by simp
  next
    case True
    have "wired_upto (length (loops s)) (s\<lparr>video := seek_done (video s)\<rparr>)"
    proof (rule wired_uptoI)
      show "v_seeking (video (s\<lparr>video := seek_done (video s)\<rparr>))
          \<or> v_seeked_tasks (video (s\<lparr>video := seek_done (video s)\<rparr>)) > 0"
        by (simp add: seek_done_def)
    qed (use assms in \<open>simp_all add: wired_upto_listener wired_upto_in_pool wired_upto_called
          wired_upto_alive\<close>)
    with SeekDone True show ?thesis by simp
  qed
next
  case SeekedEvent
  with assms show ?thesis by (simp add: wired_upto_dispatch_seeked)
next
  case (WorkerMessage w)
  with assms show ?thesis by (simp add: wired_upto_worker_message)
next
  case CompressionMessage
  with assms show ?thesis by (simp add: wired_upto_compression_message)
qed

lemma loops_settle [simp]: "loops (settle s) = loops s"
  by (simp add: settle_def abort_def finally_reset_def)

lemma video_settle [simp]: "video (settle s) = video s"
  by (simp add: settle_def abort_def finally_reset_def)

lemma consistent_settle:
  assumes "wired_upto (length (loops s)) s"
  shows "consistent (settle s)"
proof -
  have "settled (settle s)"
    by (simp add: settled_def settle_def abort_def finally_reset_def)
  moreover have "wired_upto (length (loops s)) (s\<lparr>phase := Compressing\<rparr>)"
    using assms by (rule wired_upto_cong) simp_all
  then have "wired_upto (length (loops s)) (settle s)"
    using assms by (simp add: settle_def wired_upto_abort)
  ultimately show ?thesis by (simp add: consistent_def)
qed

lemma consistent_step: "consistent s \<Longrightarrow> consistent (step env e s)"
  unfolding step_def by (rule consistent_settle) (simp add: consistent_def wired_handle)

lemma consistent_run: "consistent s \<Longrightarrow> consistent (run env es s)"
  unfolding run_def by (induction es arbitrary: s) (simp_all add: consistent_step)

section \<open>Every extraction comes to an end\<close>

lemma length_loops_loop_head [simp]:
  "length (loops (loop_head w s)) = length (loops s)"
  by (simp add: loop_head_def split: list.splits)

lemma wired_upto_calls:
  "wired_upto 0 s \<Longrightarrow> k \<le> length (loops s) \<Longrightarrow>
   wired_upto k (foldl (\<lambda>s' w. loop_head w s') s [0 ..< k])
   \<and> length (loops (foldl (\<lambda>s' w. loop_head w s') s [0 ..< k])) = length (loops s)"
proof (induction k)
  case 0
  then show ?case by simp
next
  case (Suc k)
  let ?s' = "foldl (\<lambda>s' w. loop_head w s') s [0 ..< k]"
  from Suc have wired: "wired_upto k ?s'" and len: "length (loops ?s') = length (loops s)"
    by simp_all
  have "wired_upto (max k (Suc k)) (loop_head k ?s')"
    using wired Suc.prems(2) len by (intro wired_upto_loop_head) simp_all
  then show ?case using len by simp
qed

lemma extractFrames_Running:
  assumes "extractFrames env hardwareConcurrency st v u = Some (Running s0)"
  obtains init where "s0 = settle (foldl (\<lambda>s w. loop_head w s) init
        [0 ..< worker_count hardwareConcurrency])"
    and "seeked_listeners init = []" and "phase init = Extracting"
    and "\<not> workers_terminated init" and "frames init = []" and "shifted init = []"
    and "loops init = replicate (worker_count hardwareConcurrency) NotStarted"
    and "build_frameQueue (to_double env) (total_frames init) (v_duration v)
           (fst (extraction_plan (to_double env) st (v_duration v))) = Some (frameQueue init)"
    and "total_frames init = snd (extraction_plan (to_double env) st (v_duration v))"
proof -
  obtain the_file where f: "videoFile u = Some the_file"
    using assms by (cases "videoFile u") (simp_all add: extractFrames_def)
  obtain frameInterval n
    where plan: "extraction_plan (to_double env) st (v_duration v) = (frameInterval, n)"
    by (cases "extraction_plan (to_double env) st (v_duration v)")
  obtain queue
    where queue: "build_frameQueue (to_double env) n (v_duration v) frameInterval = Some queue"
    using assms f plan
    by (cases "build_frameQueue (to_double env) n (v_duration v) frameInterval")
      (simp_all add: extractFrames_def)
  define init where "init = \<lparr>ex_settings = st, total_frames = n,
      original_name = file_name the_file,
      frameQueue = queue,
      video = v, seeked_listeners = [],
      loops = replicate (worker_count hardwareConcurrency) NotStarted,
      frames = [], completedFrames = 0,
      ui = u\<lparr>isProcessing := True, progress := 0\<rparr>,
      phase = Extracting, workers_terminated = False, shifted = []\<rparr>"
  have "s0 = settle (foldl (\<lambda>s w. loop_head w s) init
        [0 ..< worker_count hardwareConcurrency])"
    using assms f plan queue by (simp add: extractFrames_def init_def)
  then show ?thesis
    using plan queue by (intro that [of init]) (simp_all add: init_def)
qed

lemma consistent_extractFrames:
  assumes "extractFrames env hardwareConcurrency st v u = Some (Running s0)"
  shows "consistent s0"
proof -
  define k where "k = worker_count hardwareConcurrency"
  from assms obtain init
    where s0: "s0 = settle (foldl (\<lambda>s w. loop_head w s) init [0 ..< k])"
      and init: "seeked_listeners init = []" "phase init = Extracting"
        "\<not> workers_terminated init" "loops init = replicate k NotStarted"
    unfolding k_def by (rule extractFrames_Running)
  have "wired_upto 0 init"
    by (rule wired_uptoI) (simp_all add: init)
  moreover have "k \<le> length (loops init)" by (simp add: init)
  ultimately have "wired_upto k (foldl (\<lambda>s w. loop_head w s) init [0 ..< k])"
    and "length (loops (foldl (\<lambda>s w. loop_head w s) init [0 ..< k])) = length (loops init)"
    using wired_upto_calls [of init k] by simp_all
  then have "wired_upto (length (loops (foldl (\<lambda>s w. loop_head w s) init [0 ..< k])))
      (foldl (\<lambda>s w. loop_head w s) init [0 ..< k])"
    by (simp add: init)
  then show ?thesis unfolding s0 by (rule consistent_settle)
qed

lemma video_captures [simp]:
  "video (foldl (\<lambda>s' w. capture_frame env w s') s ws) = video s"
proof -
  obtain ls where "foldl (\<lambda>s' w. capture_frame env w s') s ws = s\<lparr>loops := ls\<rparr>"
    using captures_only_loops [of env s ws] by blast
  then show ?thesis by simp
qed

text \<open>While frames are extracted, something can always happen next.\<close>

lemma extracting_not_stuck:
  assumes cons: "consistent s" and ph: "phase s = Extracting"
  shows "\<exists>e. step env e s \<noteq> s"
proof -
  from cons have wired: "wired_upto (length (loops s)) s" and "settled s"
    by (simp_all add: consistent_def)
  with ph have nothrow: "\<not> list_ex is_threw (loops s)"
    and open_loop: "\<not> list_all (\<lambda>l. l = Finished) (loops s)"
    by (simp_all add: settled_def)
  from open_loop obtain w where w: "w < length (loops s)" and nf: "loops s ! w \<noteq> Finished"
    by (auto simp: list_all_length)
  from nothrow w have nt: "\<not> is_threw (loops s ! w)"
    by (auto simp: list_ex_iff)
  from wired_upto_called [OF wired w] w have started: "loops s ! w \<noteq> NotStarted" by auto
  from wired_upto_alive [OF wired ph] have alive: "\<not> workers_terminated s" .
  show ?thesis
  proof (cases "loops s ! w")
    case (AwaitEncode t req)
    have "loops (worker_message env w s) ! w \<noteq> loops s ! w"
    proof (cases "frame_worker env req")
      case (WorkerError msg)
      with w alive AwaitEncode show ?thesis by (simp add: worker_message_def)
    next
      case (WorkerSuccess n frameData)
      with w alive AwaitEncode show ?thesis
        by (simp add: worker_message_def loop_head_def Let_def split: list.splits)
    qed
    then have "loops (step env (WorkerMessage w) s) \<noteq> loops s"
      by (auto simp: step_def)
    then have "step env (WorkerMessage w) s \<noteq> s" by auto
    then show ?thesis ..
  next
    case (AwaitSeeked t)
    with w have "w \<in> set (seeked_listeners s)"
      by (intro wired_upto_listener [OF wired]) simp_all
    then have "seeked_listeners s \<noteq> []" by auto
    with wired_upto_seek_pending [OF wired]
    have pending: "v_seeking (video s) \<or> v_seeked_tasks (video s) > 0" by simp
    show ?thesis
    proof (cases "v_seeked_tasks (video s) > 0")
      case True
      then have "v_seeked_tasks (video (step env SeekedEvent s)) \<noteq> v_seeked_tasks (video s)"
        by (simp add: step_def dispatch_seeked_def)
      then have "step env SeekedEvent s \<noteq> s" by auto
      then show ?thesis ..
    next
      case False
      with pending have "v_seeking (video s)" by simp
      then have "v_seeking (video (step env SeekDone s)) \<noteq> v_seeking (video s)"
        by (simp add: step_def seek_done_def)
      then have "step env SeekDone s \<noteq> s" by auto
      then show ?thesis ..
    qed
  qed (use nf nt started in simp_all)
qed

lemma run_Cons: "run env (e # es) s = run env es (step env e s)"
  by (simp add: run_def)

lemma finishing_schedule:
  "consistent s \<Longrightarrow> \<exists>es. length es \<le> remaining_work s \<and> phase (run env es s) \<noteq> Extracting"
proof (induction "remaining_work s" arbitrary: s rule: less_induct)
  case less
  show ?case
  proof (cases "phase s = Extracting")
    case False
    then have "length [] \<le> remaining_work s \<and> phase (run env [] s) \<noteq> Extracting"
      by (simp add: run_def)
    then show ?thesis by blast
  next
    case True
    then obtain e where e: "step env e s \<noteq> s"
      using extracting_not_stuck [OF less.prems] by blast
    with remaining_work_step [of env e s]
    have smaller: "remaining_work (step env e s) < remaining_work s" by simp
    have "consistent (step env e s)" using less.prems by (rule consistent_step)
    with less.hyps [OF smaller] obtain es
      where es: "length es \<le> remaining_work (step env e s)"
        "phase (run env es (step env e s)) \<noteq> Extracting"
      by blast
    from es smaller have "length (e # es) \<le> remaining_work s
        \<and> phase (run env (e # es) s) \<noteq> Extracting"
      by (simp add: run_Cons)
    then show ?thesis by blast
  qed
qed

lemma loop_head_takes_one:
  "frameQueue s \<noteq> [] \<Longrightarrow> frameQueue (loop_head w s) = tl (frameQueue s)"
  by (cases "frameQueue s") (simp_all add: loop_head_def)

lemma loop_head_returns:
  "frameQueue s = [] \<Longrightarrow> w < length (loops s) \<Longrightarrow>
   loops (loop_head w s) ! w = Finished \<and> frameQueue (loop_head w s) = []"
  by (simp add: loop_head_def)

text \<open>The small extraction always starts: the duration of its video is finite.\<close>

lemma demo_start_Some:
  "extractFrames demo_env k default_settings (demo_video d) demo_ui
     = Some (Running (demo_start k d))"
proof -
  obtain q where "build_frameQueue (\<lambda>x. x) (Num (of_nat (nat \<lceil>d * 60\<rceil>))) (Num d)
      (Num (1 / 60)) = Some q"
    using build_frameQueue_finite_total by blast
  moreover have "of_int \<lceil>d * 60\<rceil> = (of_nat (nat \<lceil>d * 60\<rceil>) :: rat)"
    if "0 \<le> \<lceil>d * 60\<rceil>"
    using that by simp
  moreover have "build_frameQueue (\<lambda>x. x) (Num (of_int \<lceil>d * 60\<rceil>)) (Num d) (Num (1 / 60))
      = Some []" if "\<not> 0 \<le> \<lceil>d * 60\<rceil>"
    unfolding build_frameQueue_def using that by (subst frameQueue_loop_unfold) simp
  ultimately obtain q' where "build_frameQueue (\<lambda>x. x) (Num (of_int \<lceil>d * 60\<rceil>)) (Num d)
      (Num (1 / 60)) = Some q'"
    by (cases "0 \<le> \<lceil>d * 60\<rceil>") auto
  then show ?thesis
    by (simp add: demo_start_def extractFrames_def demo_ui_def demo_env_def demo_video_def
        extraction_plan_def default_settings_def)
qed

text \<open>
  What holds of every extraction that starts, and of the queue for every finite count:
  the queue is no longer than the count and every time in it lies before the end of the
  video; each pass through the head of a worker loop takes exactly one time off the
  queue, and with an empty queue the loop returns; every event that changes the state of
  an extraction reduces the work left, so no extraction goes on for ever; while frames
  are extracted some event can always happen; and within as many events as there is work
  left, \<open>Promise.all\<close> over the loops is settled.
\<close>

lemma finite_count_queue_bounded_and_loops_terminate:
  "(\<exists>q. build_frameQueue rnd (Num (of_nat n)) d i = Some q
        \<and> length q \<le> n \<and> (\<forall>t \<in> set q. js_less (Num t) d))
   \<and> (frameQueue s \<noteq> [] \<longrightarrow> frameQueue (loop_head w s) = tl (frameQueue s))
   \<and> (frameQueue s = [] \<and> w < length (loops s) \<longrightarrow>
        loops (loop_head w s) ! w = Finished \<and> frameQueue (loop_head w s) = [])
   \<and> (step env e s = s \<or> remaining_work (step env e s) < remaining_work s)
   \<and> (extractFrames env hardwareConcurrency st v u = Some (Running s0) \<longrightarrow>
        (\<forall>es. phase (run env es s0) = Extracting
              \<longrightarrow> (\<exists>e. step env e (run env es s0) \<noteq> run env es s0))
        \<and> (\<exists>es. length es \<le> remaining_work s0 \<and> phase (run env es s0) \<noteq> Extracting))"
proof -
  have runs: "(\<forall>es. phase (run env es s0) = Extracting
              \<longrightarrow> (\<exists>e. step env e (run env es s0) \<noteq> run env es s0))
        \<and> (\<exists>es. length es \<le> remaining_work s0 \<and> phase (run env es s0) \<noteq> Extracting)"
    if start: "extractFrames env hardwareConcurrency st v u = Some (Running s0)"
  proof -
    have cons: "consistent s0" using start by (rule consistent_extractFrames)
    have "\<exists>e. step env e (run env es s0) \<noteq> run env es s0"
      if "phase (run env es s0) = Extracting" for es
      using consistent_run [OF cons] that by (rule extracting_not_stuck)
    with finishing_schedule [OF cons, of env] show ?thesis by blast
  qed
  from build_frameQueue_finite_total [of rnd n d i] runs
    loop_head_takes_one [of s w] loop_head_returns [of s w] remaining_work_step [of env e s]
  show ?thesis by blast
qed

lemma finite_count_example:
  "build_frameQueue (\<lambda>x. x) (Num 3) (Num (1 / 20)) (Num (1 / 60)) = Some [0, 1 / 60, 1 / 30]
   \<and> frameQueue (demo_start 2 (1 / 20)) = [1 / 30]
   \<and> frameQueue (loop_head 0 (demo_start 2 (1 / 20))) = []
   \<and> loops (loop_head 0 (loop_head 0 (demo_start 2 (1 / 20)))) ! 0 = Finished
   \<and> remaining_work (step demo_env SeekDone (demo_start 2 (1 / 20)))
        < remaining_work (demo_start 2 (1 / 20))
   \<and> (\<exists>es. length es \<le> 12 \<and> phase (run demo_env es (demo_start 2 (1 / 20))) \<noteq> Extracting)"
proof -
  have queue: "build_frameQueue (\<lambda>x. x) (Num 3) (Num (1 / 20)) (Num (1 / 60))
      = Some [0, 1 / 60, 1 / 30]"
    by code_simp
  have left: "frameQueue (demo_start 2 (1 / 20)) = [1 / 30]"
    by code_simp
  have empty: "frameQueue (loop_head 0 (demo_start 2 (1 / 20))) = []"
    by code_simp
  have pool: "0 < length (loops (loop_head 0 (demo_start 2 (1 / 20))))"
    by code_simp
  have work: "remaining_work (demo_start 2 (1 / 20)) = 12"
    by code_simp
  have changes: "step demo_env SeekDone (demo_start 2 (1 / 20)) \<noteq> demo_start 2 (1 / 20)"
    by code_simp
  from finite_count_queue_bounded_and_loops_terminate
    [of "\<lambda>x. x" 3 "Num (1 / 20)" "Num (1 / 60)" "demo_start 2 (1 / 20)" 0 demo_env SeekDone
        2 default_settings "demo_video (1 / 20)" demo_ui "demo_start 2 (1 / 20)"]
    finite_count_queue_bounded_and_loops_terminate
    [of "\<lambda>x. x" 3 "Num (1 / 20)" "Num (1 / 60)" "loop_head 0 (demo_start 2 (1 / 20))" 0
        demo_env SeekDone
        2 default_settings "demo_video (1 / 20)" demo_ui "demo_start 2 (1 / 20)"]
    queue left empty pool work changes demo_start_Some [of 2 "1 / 20"]
  show ?thesis by simp
qed

text \<open>
  C4. The loop is not bounded for every duration. A recording without a length has the
  duration \<open>Infinity\<close>; with the default settings (and in the interval mode) the number of
  frames is then \<open>Math.ceil(Infinity * 60)\<close>, which is \<open>Infinity\<close>, both tests of the loop
  that fills the queue hold in every pass, and the loop never ends: no queue is built and
  \<open>extractFrames\<close> never reaches its first \<open>await\<close>. In the count mode the same video is
  handled: the count bounds the queue. For every finite count the bounds and the
  termination hold (\<open>finite_count_queue_bounded_and_loops_terminate\<close>).
\<close>

theorem queue_loop_never_ends_for_unbounded_video:
  "extraction_plan rnd default_settings Infinity = (Num (rnd (1 / 60)), Infinity)
   \<and> build_frameQueue rnd Infinity Infinity (Num (rnd (1 / 60))) = None
   \<and> extractFrames env hardwareConcurrency default_settings
        ((demo_video d)\<lparr>v_duration := Infinity\<rparr>) demo_ui = None
   \<and> extraction_plan rnd (default_settings\<lparr>extractionMode := Count\<rparr>) Infinity
        = (Infinity, Num 100)
   \<and> build_frameQueue rnd (Num 100) Infinity Infinity = Some [0]"
proof -
  have plan: "extraction_plan rnd default_settings Infinity = (Num (rnd (1 / 60)), Infinity)" for rnd
    by (simp add: extraction_plan_def default_settings_def)
  have never: "build_frameQueue rnd Infinity Infinity (Num (rnd (1 / 60))) = None" for rnd
    unfolding build_frameQueue_def by (rule frameQueue_loop_never_returns)
  have hang: "extractFrames env hardwareConcurrency default_settings
        ((demo_video d)\<lparr>v_duration := Infinity\<rparr>) demo_ui = None"
    using plan [of "to_double env"] never [of "to_double env"]
    by (simp add: extractFrames_def demo_ui_def)
  have count_plan: "extraction_plan rnd (default_settings\<lparr>extractionMode := Count\<rparr>) Infinity
        = (Infinity, Num 100)"
    by (simp add: extraction_plan_def default_settings_def)
  have "build_frameQueue rnd (Num 100) Infinity Infinity
      = frameQueue_loop rnd (Num 100) Infinity Infinity [0] Infinity"
    unfolding build_frameQueue_def by (subst frameQueue_loop_unfold) simp
  also have "\<dots> = Some [0]"
    by (rule frameQueue_loop_not_finite) simp
  finally have count_queue: "build_frameQueue rnd (Num 100) Infinity Infinity = Some [0]" .
  from plan never hang count_plan count_queue show ?thesis by simp
qed

section \<open>Waiting for the seek\<close>

lemma captures_other:
  "w \<notin> set ws \<Longrightarrow>
   loops (foldl (\<lambda>s' a. capture_frame env a s') s ws) ! w = loops s ! w"
proof (induction ws arbitrary: s)
  case Nil
  show ?case by simp
next
  case (Cons a ws)
  obtain l where l: "capture_frame env a s = s\<lparr>loops := (loops s)[a := l]\<rparr>"
    using capture_frame_only_loops [of env a s] by blast
  from Cons.prems have "a \<noteq> w" "w \<notin> set ws" by auto
  with Cons.IH [of "capture_frame env a s"] l show ?case by simp
qed

lemma capture_frame_after_other:
  "a \<noteq> w \<Longrightarrow>
   loops (capture_frame env w (s\<lparr>loops := (loops s)[a := l]\<rparr>)) ! w
     = loops (capture_frame env w s) ! w"
  by (simp add: capture_frame_def Let_def split: loop_state.splits prod.splits)

lemma captures_listener:
  "w \<in> set ws \<Longrightarrow> w < length (loops s) \<Longrightarrow>
   loops (foldl (\<lambda>s' a. capture_frame env a s') s ws) ! w = loops (capture_frame env w s) ! w"
proof (induction ws arbitrary: s)
  case Nil
  then show ?case by simp
next
  case (Cons a ws)
  obtain l where l: "capture_frame env a s = s\<lparr>loops := (loops s)[a := l]\<rparr>"
      "is_await_seeked l \<longrightarrow> a \<ge> length (loops s)"
    using capture_frame_only_loops [of env a s] by blast
  let ?s1 = "capture_frame env a s"
  show ?case
  proof (cases "a = w")
    case True
    with l Cons.prems(2) have idle: "\<not> is_await_seeked (loops ?s1 ! w)" by auto
    obtain ls where ls: "foldl (\<lambda>s' a. capture_frame env a s') ?s1 ws = ?s1\<lparr>loops := ls\<rparr>"
        "length ls = length (loops ?s1)"
        "\<forall>x < length ls. \<not> is_await_seeked (loops ?s1 ! x) \<longrightarrow> ls ! x = loops ?s1 ! x"
      using captures_only_loops [of env ?s1 ws] by blast
    from l(1) Cons.prems(2) have "w < length (loops ?s1)" by simp
    with ls idle have "loops (foldl (\<lambda>s' a. capture_frame env a s') ?s1 ws) ! w = loops ?s1 ! w"
      by simp
    with True show ?thesis by simp
  next
    case False
    show ?thesis
    proof (cases "w \<in> set ws")
      case True
      from l(1) Cons.prems(2) have "w < length (loops ?s1)" by simp
      with Cons.IH [OF True, of ?s1]
      have "loops (foldl (\<lambda>s' a. capture_frame env a s') ?s1 ws) ! w
          = loops (capture_frame env w ?s1) ! w" by simp
      also have "\<dots> = loops (capture_frame env w s) ! w"
        unfolding l(1) using False by (rule capture_frame_after_other)
      finally show ?thesis by simp
    next
      case False
      with Cons.prems(1) \<open>a \<noteq> w\<close> show ?thesis by simp
    qed
  qed
qed

lemma loops_worker_message_other:
  "w' \<noteq> w \<Longrightarrow> loops (worker_message env w' s) ! w = loops s ! w"
  by (simp add: worker_message_def loop_head_def Let_def
      split: loop_state.splits worker_response.splits list.splits)

lemma loops_compression_message [simp]:
  "loops (compression_message env s) = loops s"
  by (simp add: compression_message_def Let_def abort_def finally_reset_def split: option.splits)

lemma waiting_loop_moves_on_seeked_only:
  assumes w: "w < length (loops s)" and wait: "loops s ! w = AwaitSeeked t"
    and moved: "loops (step env e s) ! w \<noteq> AwaitSeeked t"
  shows "e = SeekedEvent \<and> v_seeked_tasks (video s) > 0 \<and> w \<in> set (seeked_listeners s)"
proof (cases e)
  case SeekDone
  with wait moved show ?thesis by (simp add: step_def split: if_splits)
next
  case CompressionMessage
  with wait moved show ?thesis by (simp add: step_def)
next
  case (WorkerMessage w')
  have "loops (worker_message env w' s) ! w = loops s ! w"
  proof (cases "w' = w")
    case True
    with wait show ?thesis by (simp add: worker_message_def)
  next
    case False
    then show ?thesis by (rule loops_worker_message_other)
  qed
  with WorkerMessage wait moved show ?thesis by (simp add: step_def)
next
  case SeekedEvent
  show ?thesis
  proof (cases "v_seeked_tasks (video s) > 0 \<and> w \<in> set (seeked_listeners s)")
    case True
    with SeekedEvent show ?thesis by simp
  next
    case False
    have "loops (handle env SeekedEvent s) ! w = loops s ! w"
    proof (cases "v_seeked_tasks (video s) > 0")
      case True
      with False have "w \<notin> set (seeked_listeners s)" by simp
      then show ?thesis
        using True by (simp add: dispatch_seeked_def captures_other)
    next
      case False
      then show ?thesis by simp
    qed
    with SeekedEvent wait moved show ?thesis by (simp add: step_def)
  qed
qed

lemma listener_draws_what_is_shown:
  assumes w: "w < length (loops s)" and wait: "loops s ! w = AwaitSeeked t"
    and listed: "w \<in> set (seeked_listeners s)" and queued: "v_seeked_tasks (video s) > 0"
  shows "case loops (step env SeekedEvent s) ! w of
           AwaitEncode t' req \<Rightarrow> t' = t \<and> img_position (imageData req) = v_shown (video s)
                                    \<and> frameNumber req = completedFrames s
         | Threw x \<Rightarrow> True
         | _ \<Rightarrow> False"
proof -
  let ?s1 = "s\<lparr>video := (video s)\<lparr>v_seeked_tasks := v_seeked_tasks (video s) - 1\<rparr>,
                seeked_listeners := []\<rparr>"
  have "loops (step env SeekedEvent s) ! w = loops (dispatch_seeked env s) ! w"
    using queued by (simp add: step_def)
  also have "\<dots> = loops (capture_frame env w ?s1) ! w"
    unfolding dispatch_seeked_def using listed w by (intro captures_listener) simp_all
  finally have eq: "loops (step env SeekedEvent s) ! w = loops (capture_frame env w ?s1) ! w" .
  show ?thesis
    unfolding eq using w wait
    by (simp add: capture_frame_def Let_def split: prod.splits)
qed

lemma loop_head_registers:
  "frameQueue s = t # rest \<Longrightarrow>
   video (loop_head w s) = set_currentTime t (video s)
   \<and> seeked_listeners (loop_head w s) = seeked_listeners s @ [w]
   \<and> (w < length (loops s) \<longrightarrow> loops (loop_head w s) ! w = AwaitSeeked t)"
  by (simp add: loop_head_def)


text \<open>
  What the wait is by design: in the block in which a loop assigns the frame time to the
  current time it registers a one-shot \<open>seeked\<close> listener and starts to wait; no other
  event than a dispatched \<open>seeked\<close> event, with the loop among the listeners, takes it out
  of the wait; and when that event is dispatched the loop draws the frame the video shows
  at that moment (or throws for want of a canvas). Nothing ties the event to the seek
  that the loop itself started.
\<close>

lemma capture_waits_for_seeked_event:
  "(frameQueue s = frameTime # rest \<longrightarrow>
       video (loop_head w s) = set_currentTime frameTime (video s)
       \<and> seeked_listeners (loop_head w s) = seeked_listeners s @ [w]
       \<and> (w < length (loops s) \<longrightarrow> loops (loop_head w s) ! w = AwaitSeeked frameTime))
   \<and> (w < length (loops s) \<and> loops s ! w = AwaitSeeked t
        \<and> loops (step env e s) ! w \<noteq> AwaitSeeked t \<longrightarrow>
       e = SeekedEvent \<and> v_seeked_tasks (video s) > 0 \<and> w \<in> set (seeked_listeners s))
   \<and> (w < length (loops s) \<and> loops s ! w = AwaitSeeked t
        \<and> w \<in> set (seeked_listeners s) \<and> v_seeked_tasks (video s) > 0 \<longrightarrow>
       (case loops (step env SeekedEvent s) ! w of
          AwaitEncode t' req \<Rightarrow> t' = t \<and> img_position (imageData req) = v_shown (video s)
                                   \<and> frameNumber req = completedFrames s
        | Threw x \<Rightarrow> True
        | _ \<Rightarrow> False))"
  using loop_head_registers [of s frameTime rest w]
    waiting_loop_moves_on_seeked_only [of w s t env e]
    listener_draws_what_is_shown [of w s t env]
  by blast

lemma capture_waits_for_seeked_event_example:
  "video (loop_head 0 (step demo_env SeekDone (demo_start 2 (1 / 20))))
     = set_currentTime (1 / 30) (video (step demo_env SeekDone (demo_start 2 (1 / 20))))
   \<and> loops (loop_head 0 (step demo_env SeekDone (demo_start 2 (1 / 20)))) ! 0
     = AwaitSeeked (1 / 30)
   \<and> loops (step demo_env SeekDone (demo_start 2 (1 / 20))) ! 0 = AwaitSeeked 0
   \<and> loops (step demo_env (WorkerMessage 0) (step demo_env SeekDone (demo_start 2 (1 / 20)))) ! 0
     = AwaitSeeked 0
   \<and> loops (step demo_env SeekedEvent (step demo_env SeekDone (demo_start 2 (1 / 20)))) ! 0
     = AwaitEncode 0
         \<lparr>imageData = \<lparr>img_width = 640, img_height = 360, img_position = 1 / 60\<rparr>,
          req_format = Webp, req_quality = 1, frameNumber = 0\<rparr>"
proof -
  let ?s = "step demo_env SeekDone (demo_start 2 (1 / 20))"
  have queue: "frameQueue ?s = [1 / 30]" by code_simp
  have pool: "0 < length (loops ?s)" by code_simp
  have wait: "loops ?s ! 0 = AwaitSeeked 0" by code_simp
  have listed: "0 \<in> set (seeked_listeners ?s)" by code_simp
  have queued: "v_seeked_tasks (video ?s) > 0" by code_simp
  have still: "loops (step demo_env (WorkerMessage 0) ?s) ! 0 = AwaitSeeked 0" by code_simp
  have drawn: "loops (step demo_env SeekedEvent ?s) ! 0
     = AwaitEncode 0
         \<lparr>imageData = \<lparr>img_width = 640, img_height = 360, img_position = 1 / 60\<rparr>,
          req_format = Webp, req_quality = 1, frameNumber = 0\<rparr>" by code_simp
  from capture_waits_for_seeked_event [of ?s "1 / 30" "[]" 0 0 demo_env SeekedEvent]
    queue pool wait listed queued still drawn
  show ?thesis by simp
qed

text \<open>
  C3. The loop does not wait until the seek it started is complete. The comment in the
  loop says "Seek to frame time and wait for it to be ready", but the wait is for the
  next \<open>seeked\<close> event of the video, whichever seek it ends. With a pool of two the first
  loop assigns \<open>0\<close> and the second \<open>1/60\<close> to the current time in the same block; the seek
  to \<open>0\<close> is superseded and never completes, yet the first loop draws on the \<open>seeked\<close>
  event of the seek to \<open>1/60\<close>, and draws that frame. Later, in \<open>overtaken_state\<close>, the
  second loop has assigned \<open>1/20\<close> and the video is still seeking when the \<open>seeked\<close> event
  of the earlier seek to \<open>1/30\<close> is dispatched: the loop draws at once, while the video
  reports a seek in progress, and the picture is the one at \<open>1/30\<close>.
\<close>

theorem draw_while_seek_in_progress:
  "loops (run demo_env [SeekDone] (demo_start 2 (1 / 20))) ! 0 = AwaitSeeked 0
   \<and> v_currentTime (video (run demo_env [SeekDone] (demo_start 2 (1 / 20)))) = 1 / 60
   \<and> v_shown (video (run demo_env [SeekDone] (demo_start 2 (1 / 20)))) = 1 / 60
   \<and> loops (run demo_env [SeekDone, SeekedEvent] (demo_start 2 (1 / 20))) ! 0
       = AwaitEncode 0
           \<lparr>imageData = \<lparr>img_width = 640, img_height = 360, img_position = 1 / 60\<rparr>,
            req_format = Webp, req_quality = 1, frameNumber = 0\<rparr>
   \<and> loops overtaken_state ! 1 = AwaitSeeked (1 / 20)
   \<and> v_currentTime (video overtaken_state) = 1 / 20
   \<and> v_seeking (video overtaken_state)
   \<and> loops (step demo_env SeekedEvent overtaken_state) ! 1
       = AwaitEncode (1 / 20)
           \<lparr>imageData = \<lparr>img_width = 640, img_height = 360, img_position = 1 / 30\<rparr>,
            req_format = Webp, req_quality = 1, frameNumber = 2\<rparr>
   \<and> v_seeking (video (step demo_env SeekedEvent overtaken_state))"
  by code_simp

section \<open>The race of the worker loops\<close>

lemma shifted_loop_head:
  "map snd (shifted (loop_head w s)) @ frameQueue (loop_head w s)
     = map snd (shifted s) @ frameQueue s"
  by (simp add: loop_head_def split: list.splits)

lemma shifted_captures [simp]:
  "shifted (foldl (\<lambda>s' a. capture_frame env a s') s ws) = shifted s"
  "frameQueue (foldl (\<lambda>s' a. capture_frame env a s') s ws) = frameQueue s"
proof -
  obtain ls where "foldl (\<lambda>s' a. capture_frame env a s') s ws = s\<lparr>loops := ls\<rparr>"
    using captures_only_loops [of env s ws] by blast
  then show "shifted (foldl (\<lambda>s' a. capture_frame env a s') s ws) = shifted s"
    "frameQueue (foldl (\<lambda>s' a. capture_frame env a s') s ws) = frameQueue s"
    by simp_all
qed

lemma shifted_settle [simp]:
  "shifted (settle s) = shifted s" "frameQueue (settle s) = frameQueue s"
  by (simp_all add: settle_def abort_def finally_reset_def)

lemma shifted_handle:
  "map snd (shifted (handle env e s)) @ frameQueue (handle env e s)
     = map snd (shifted s) @ frameQueue s"
proof (cases e)
  case SeekDone
  then show ?thesis by simp
next
  case SeekedEvent
  then show ?thesis by (simp add: dispatch_seeked_def)
next
  case (WorkerMessage w)
  have "map snd (shifted (worker_message env w s)) @ frameQueue (worker_message env w s)
     = map snd (shifted s) @ frameQueue s"
    by (simp add: worker_message_def Let_def shifted_loop_head
        split: loop_state.splits worker_response.splits)
  with WorkerMessage show ?thesis by simp
next
  case CompressionMessage
  then show ?thesis
    by (simp add: compression_message_def Let_def abort_def finally_reset_def
        split: option.splits)
qed

text \<open>
  The part of C5 that holds: whatever the order of events, the times taken off the
  queue so far, in the order they were taken, followed by the times still queued are the
  queue as it was built; so each queued time is taken once, by one loop.
\<close>

lemma each_time_dequeued_once:
  "map snd (shifted (run env es s)) @ frameQueue (run env es s)
     = map snd (shifted s) @ frameQueue s"
  unfolding run_def
  by (induction es arbitrary: s) (simp_all add: step_def shifted_handle)

text \<open>
  C5. Each queued frame time is taken off the queue by one loop (\<open>each_time_dequeued_once\<close>),
  but the picture stored for it need not be the frame of that time. With a pool of two,
  both loops assign the current time before either seek can finish; the video ends up at
  \<open>1/60\<close>, both loops wake on the same \<open>seeked\<close> event and both draw that frame. The
  frame at time \<open>0\<close> is never captured: \<open>frame_00\<close> and \<open>frame_01\<close> hold the same picture,
  where a pool of one stores the frames of times \<open>0\<close>, \<open>1/60\<close> and \<open>1/30\<close>.
\<close>

theorem two_loops_capture_the_same_picture:
  "shifted (run demo_env [SeekDone, SeekedEvent] (demo_start 2 (1 / 20)))
     = [(0, 0), (1, 1 / 60)]
   \<and> loops (run demo_env [SeekDone, SeekedEvent] (demo_start 2 (1 / 20)))
     = [AwaitEncode 0
          \<lparr>imageData = \<lparr>img_width = 640, img_height = 360, img_position = 1 / 60\<rparr>,
           req_format = Webp, req_quality = 1, frameNumber = 0\<rparr>,
        AwaitEncode (1 / 60)
          \<lparr>imageData = \<lparr>img_width = 640, img_height = 360, img_position = 1 / 60\<rparr>,
           req_format = Webp, req_quality = 1, frameNumber = 0\<rparr>]
   \<and> frames (run demo_env
         [SeekDone, SeekedEvent, WorkerMessage 0, WorkerMessage 1, SeekDone, SeekedEvent,
          WorkerMessage 0] (demo_start 2 (1 / 20)))
     = [(''frame_00.webp'', [1]), (''frame_01.webp'', [1]), (''frame_02.webp'', [2])]
   \<and> frames (run demo_env
         [SeekDone, SeekedEvent, WorkerMessage 0, SeekDone, SeekedEvent, WorkerMessage 0,
          SeekDone, SeekedEvent, WorkerMessage 0] (demo_start 1 (1 / 20)))
     = [(''frame_00.webp'', [0]), (''frame_01.webp'', [1]), (''frame_02.webp'', [2])]"
  by code_simp

lemma run_snoc: "run env (es @ [e]) s = step env e (run env es s)"
  by (simp add: run_def)

lemma download_of_compressed:
  assumes "phase s = Compressing"
    and "compression_worker env (frames s) None = CompressData zipData"
    and "length zipData \<le> 100 * 1024 * 1024"
  shows "phase (step env CompressionMessage s)
     = Downloaded (LinkClick (''frames_'' @ strip_extension (original_name s) @ ''_''
                      @ string_of_nat (date_now env) @ ''.zip'') zipData)"
  using assms
  by (simp add: step_def compression_message_def createDownload_def settle_def
      finally_reset_def)

text \<open>
  C8. The archive is not a function of the video and the settings alone. The same video,
  settings, pool and workers, with the same events delivered in two orders (the message
  of the second worker before or after the second seek is done), end in two downloads
  whose archives differ: the frames stored as \<open>frame_02\<close> and \<open>frame_03\<close> show the video
  at \<open>1/20\<close> in one run and at \<open>1/30\<close> in the other.
\<close>

theorem archive_depends_on_event_order:
  "phase (run demo_env
       [SeekDone, SeekedEvent, WorkerMessage 0, WorkerMessage 1, SeekDone, SeekedEvent,
        WorkerMessage 0, WorkerMessage 1, CompressionMessage] (demo_start 2 (1 / 15)))
     = Downloaded (LinkClick ''frames_clip_5.zip''
         [102, 114, 97, 109, 101, 95, 48, 48, 46, 119, 101, 98, 112, 0, 1, 0,
          102, 114, 97, 109, 101, 95, 48, 49, 46, 119, 101, 98, 112, 0, 1, 0,
          102, 114, 97, 109, 101, 95, 48, 50, 46, 119, 101, 98, 112, 0, 3, 0,
          102, 114, 97, 109, 101, 95, 48, 51, 46, 119, 101, 98, 112, 0, 3, 0])
   \<and> phase (run demo_env
       [SeekDone, SeekedEvent, WorkerMessage 0, SeekDone, WorkerMessage 1, SeekedEvent,
        WorkerMessage 0, WorkerMessage 1, CompressionMessage] (demo_start 2 (1 / 15)))
     = Downloaded (LinkClick ''frames_clip_5.zip''
         [102, 114, 97, 109, 101, 95, 48, 48, 46, 119, 101, 98, 112, 0, 1, 0,
          102, 114, 97, 109, 101, 95, 48, 49, 46, 119, 101, 98, 112, 0, 1, 0,
          102, 114, 97, 109, 101, 95, 48, 50, 46, 119, 101, 98, 112, 0, 2, 0,
          102, 114, 97, 109, 101, 95, 48, 51, 46, 119, 101, 98, 112, 0, 2, 0])
   \<and> phase (run demo_env
       [SeekDone, SeekedEvent, WorkerMessage 0, WorkerMessage 1, SeekDone, SeekedEvent,
        WorkerMessage 0, WorkerMessage 1, CompressionMessage] (demo_start 2 (1 / 15)))
     \<noteq> phase (run demo_env
       [SeekDone, SeekedEvent, WorkerMessage 0, SeekDone, WorkerMessage 1, SeekedEvent,
        WorkerMessage 0, WorkerMessage 1, CompressionMessage] (demo_start 2 (1 / 15)))"
proof -
  let ?A = "run demo_env
       [SeekDone, SeekedEvent, WorkerMessage 0, WorkerMessage 1, SeekDone, SeekedEvent,
        WorkerMessage 0, WorkerMessage 1] (demo_start 2 (1 / 15))"
  let ?B = "run demo_env
       [SeekDone, SeekedEvent, WorkerMessage 0, SeekDone, WorkerMessage 1, SeekedEvent,
        WorkerMessage 0, WorkerMessage 1] (demo_start 2 (1 / 15))"
  let ?ZA = "[102, 114, 97, 109, 101, 95, 48, 48, 46, 119, 101, 98, 112, 0, 1, 0,
          102, 114, 97, 109, 101, 95, 48, 49, 46, 119, 101, 98, 112, 0, 1, 0,
          102, 114, 97, 109, 101, 95, 48, 50, 46, 119, 101, 98, 112, 0, 3, 0,
          102, 114, 97, 109, 101, 95, 48, 51, 46, 119, 101, 98, 112, 0, 3, 0] :: bytes"
  let ?ZB = "[102, 114, 97, 109, 101, 95, 48, 48, 46, 119, 101, 98, 112, 0, 1, 0,
          102, 114, 97, 109, 101, 95, 48, 49, 46, 119, 101, 98, 112, 0, 1, 0,
          102, 114, 97, 109, 101, 95, 48, 50, 46, 119, 101, 98, 112, 0, 2, 0,
          102, 114, 97, 109, 101, 95, 48, 51, 46, 119, 101, 98, 112, 0, 2, 0] :: bytes"
  have name: "''frames_'' @ strip_extension ''clip.mp4'' @ ''_'' @ string_of_nat 5 @ ''.zip''
      = ''frames_clip_5.zip''"
    by code_simp
  have now: "date_now demo_env = 5" by (simp add: demo_env_def)
  have a: "phase ?A = Compressing" "original_name ?A = ''clip.mp4''"
    "compression_worker demo_env (frames ?A) None = CompressData ?ZA"
    by code_simp+
  have b: "phase ?B = Compressing" "original_name ?B = ''clip.mp4''"
    "compression_worker demo_env (frames ?B) None = CompressData ?ZB"
    by code_simp+
  have "phase (step demo_env CompressionMessage ?A)
      = Downloaded (LinkClick ''frames_clip_5.zip'' ?ZA)"
    using download_of_compressed [OF a(1) a(3)] a(2) now name by simp
  moreover have "phase (step demo_env CompressionMessage ?B)
      = Downloaded (LinkClick ''frames_clip_5.zip'' ?ZB)"
    using download_of_compressed [OF b(1) b(3)] b(2) now name by simp
  ultimately show ?thesis
    using run_snoc [of demo_env "[SeekDone, SeekedEvent, WorkerMessage 0, WorkerMessage 1,
        SeekDone, SeekedEvent, WorkerMessage 0, WorkerMessage 1]" CompressionMessage
        "demo_start 2 (1 / 15)"]
      run_snoc [of demo_env "[SeekDone, SeekedEvent, WorkerMessage 0, SeekDone,
        WorkerMessage 1, SeekedEvent, WorkerMessage 0, WorkerMessage 1]" CompressionMessage
        "demo_start 2 (1 / 15)"]
    by simp
qed

section \<open>Errors abort the extraction\<close>

lemma frame_worker_reports_error:
  "offscreen_context platform \<Longrightarrow>
   convertToBlob platform (imageData req) (mimeType (req_format req))
       (if req_format req = Png then None else Some (req_quality req)) = Inl thrown \<Longrightarrow>
   frame_worker_onmessage platform req = WorkerError (error_message thrown)"
  by (simp add: frame_worker_onmessage_def)

lemma any_threw: "w < length ls \<Longrightarrow> list_ex is_threw (ls[w := Threw x])"
proof -
  assume "w < length ls"
  then have "Threw x \<in> set (ls[w := Threw x])" by (rule set_update_memI)
  then show ?thesis unfolding list_ex_iff by (rule bexI [rotated]) simp
qed

lemma error_message_aborts:
  assumes ph: "phase s = Extracting" and alive: "\<not> workers_terminated s"
    and w: "w < length (loops s)" and wait: "loops s ! w = AwaitEncode t req"
    and err: "frame_worker env req = WorkerError msg"
  shows "step env (WorkerMessage w) s
     = abort (s\<lparr>loops := (loops s)[w := Threw (ErrorObject msg)]\<rparr>)"
proof -
  have "handle env (WorkerMessage w) s = s\<lparr>loops := (loops s)[w := Threw (ErrorObject msg)]\<rparr>"
    using alive w wait err by (simp add: worker_message_def)
  then show ?thesis
    using ph w by (simp add: step_def settle_def any_threw)
qed

lemma aborted_step:
  assumes "aborted_like s s'"
  shows "aborted_like s (step env e s')"
proof -
  from assms have ph: "phase s' = Aborted" and dead: "workers_terminated s'"
    by (simp_all add: aborted_like_def)
  have same: "phase (handle env e s') = Aborted \<and> workers_terminated (handle env e s')
      \<and> ui (handle env e s') = ui s' \<and> frameQueue (handle env e s') = frameQueue s'
      \<and> frames (handle env e s') = frames s' \<and> shifted (handle env e s') = shifted s'
      \<and> completedFrames (handle env e s') = completedFrames s'
      \<and> length (loops (handle env e s')) = length (loops s')
      \<and> (\<forall>w < length (loops s'). \<not> is_await_seeked (loops s' ! w)
            \<longrightarrow> loops (handle env e s') ! w = loops s' ! w)"
  proof (cases e)
    case SeekDone
    with ph dead show ?thesis by simp
  next
    case (WorkerMessage w)
    with ph dead show ?thesis by (simp add: worker_message_def)
  next
    case CompressionMessage
    with ph dead show ?thesis by (simp add: compression_message_def)
  next
    case SeekedEvent
    let ?s1 = "s'\<lparr>video := (video s')\<lparr>v_seeked_tasks := v_seeked_tasks (video s') - 1\<rparr>,
                  seeked_listeners := []\<rparr>"
    obtain ls where ls: "dispatch_seeked env s' = ?s1\<lparr>loops := ls\<rparr>"
        "length ls = length (loops ?s1)"
        "\<forall>w < length ls. \<not> is_await_seeked (loops ?s1 ! w) \<longrightarrow> ls ! w = loops ?s1 ! w"
      unfolding dispatch_seeked_def
      using captures_only_loops [of env ?s1 "seeked_listeners s'"] by blast
    show ?thesis
    proof (cases "v_seeked_tasks (video s') > 0")
      case True
      with SeekedEvent ph dead ls show ?thesis by simp
    next
      case False
      with SeekedEvent ph dead show ?thesis by simp
    qed
  qed
  have idle: "settle (handle env e s') = handle env e s'"
    using same by (simp add: settle_def)
  have "\<not> is_await_seeked l" if "is_threw l" for l
    using that by (cases l) simp_all
  with assms same show ?thesis
    unfolding step_def idle aborted_like_def by auto
qed

lemma aborted_run: "aborted_like s s' \<Longrightarrow> aborted_like s (run env es s')"
  unfolding run_def by (induction es arbitrary: s') (simp_all add: aborted_step)

text \<open>
  C6. There is no retry. When the encode worker of a loop reports an error for a frame,
  \<open>processFrameInWorker\<close> rejects with an \<open>Error\<close> of that message, the loop is left by the
  throw and the extraction is aborted in the same block: the user is alerted, the
  processing flag and the progress are reset and the pool is terminated, with the queue
  and the stored frames untouched. Whatever happens afterwards, nothing more is taken
  off the queue, stored or shown, and the loop stays where the throw left it.
\<close>

theorem encode_error_aborts_without_retry:
  assumes "phase s = Extracting" and "\<not> workers_terminated s"
    and "w < length (loops s)" and "loops s ! w = AwaitEncode t req"
    and "frame_worker env req = WorkerError msg"
  shows "loops (step env (WorkerMessage w) s) ! w = Threw (ErrorObject msg)
    \<and> phase (step env (WorkerMessage w) s) = Aborted
    \<and> ui (step env (WorkerMessage w) s)
        = (ui s)\<lparr>alerts := alerts (ui s) @ [''An error occurred while processing frames''],
                 isProcessing := False, progress := 0\<rparr>
    \<and> workers_terminated (step env (WorkerMessage w) s)
    \<and> frameQueue (step env (WorkerMessage w) s) = frameQueue s
    \<and> frames (step env (WorkerMessage w) s) = frames s
    \<and> completedFrames (step env (WorkerMessage w) s) = completedFrames s
    \<and> shifted (step env (WorkerMessage w) s) = shifted s
    \<and> (\<forall>es. phase (run env es (step env (WorkerMessage w) s)) = Aborted
          \<and> ui (run env es (step env (WorkerMessage w) s)) = ui (step env (WorkerMessage w) s)
          \<and> frameQueue (run env es (step env (WorkerMessage w) s)) = frameQueue s
          \<and> frames (run env es (step env (WorkerMessage w) s)) = frames s
          \<and> shifted (run env es (step env (WorkerMessage w) s)) = shifted s
          \<and> loops (run env es (step env (WorkerMessage w) s)) ! w = Threw (ErrorObject msg))"
proof -
  let ?s' = "step env (WorkerMessage w) s"
  have eq: "?s' = abort (s\<lparr>loops := (loops s)[w := Threw (ErrorObject msg)]\<rparr>)"
    using assms by (rule error_message_aborts)
  have now: "loops ?s' ! w = Threw (ErrorObject msg)" "phase ?s' = Aborted"
    "ui ?s' = (ui s)\<lparr>alerts := alerts (ui s) @ [''An error occurred while processing frames''],
                 isProcessing := False, progress := 0\<rparr>"
    "workers_terminated ?s'" "frameQueue ?s' = frameQueue s" "frames ?s' = frames s"
    "completedFrames ?s' = completedFrames s" "shifted ?s' = shifted s"
    "length (loops ?s') = length (loops s)"
    unfolding eq using assms(3) by (simp_all add: abort_def finally_reset_def)
  have start: "aborted_like ?s' ?s'"
    using now by (simp add: aborted_like_def)
  have later: "phase (run env es ?s') = Aborted
          \<and> ui (run env es ?s') = ui ?s'
          \<and> frameQueue (run env es ?s') = frameQueue s
          \<and> frames (run env es ?s') = frames s
          \<and> shifted (run env es ?s') = shifted s
          \<and> loops (run env es ?s') ! w = Threw (ErrorObject msg)" for es
    using aborted_run [OF start, of env es] now assms(3)
    by (simp add: aborted_like_def)
  from now later show ?thesis by simp
qed

theorem encode_error_aborts_without_retry_witness:
  "loops (run failing_env [SeekDone, SeekedEvent] (demo_start 2 (1 / 20))) ! 0
     = AwaitEncode 0
         \<lparr>imageData = \<lparr>img_width = 640, img_height = 360, img_position = 1 / 60\<rparr>,
          req_format = Webp, req_quality = 1, frameNumber = 0\<rparr>
   \<and> phase (step failing_env (WorkerMessage 0)
         (run failing_env [SeekDone, SeekedEvent] (demo_start 2 (1 / 20)))) = Aborted
   \<and> alerts (ui (step failing_env (WorkerMessage 0)
         (run failing_env [SeekDone, SeekedEvent] (demo_start 2 (1 / 20)))))
       = [''An error occurred while processing frames'']
   \<and> frameQueue (run failing_env [WorkerMessage 1, SeekDone, WorkerMessage 0]
         (step failing_env (WorkerMessage 0)
           (run failing_env [SeekDone, SeekedEvent] (demo_start 2 (1 / 20))))) = [1 / 30]
   \<and> frames (run failing_env [WorkerMessage 1, SeekDone, WorkerMessage 0]
         (step failing_env (WorkerMessage 0)
           (run failing_env [SeekDone, SeekedEvent] (demo_start 2 (1 / 20))))) = []"
proof -
  let ?s = "run failing_env [SeekDone, SeekedEvent] (demo_start 2 (1 / 20))"
  let ?req = "\<lparr>imageData = \<lparr>img_width = 640, img_height = 360, img_position = 1 / 60\<rparr>,
          req_format = Webp, req_quality = 1, frameNumber = 0\<rparr>"
  have ph: "phase ?s = Extracting" by code_simp
  have alive: "\<not> workers_terminated ?s" by code_simp
  have pool: "0 < length (loops ?s)" by code_simp
  have wait: "loops ?s ! 0 = AwaitEncode 0 ?req" by code_simp
  have err: "frame_worker failing_env ?req = WorkerError ''encoding failed''" by code_simp
  have before: "frameQueue ?s = [1 / 30]" "frames ?s = []" "alerts (ui ?s) = []"
    by code_simp+
  from encode_error_aborts_without_retry [OF ph alive pool wait err] wait before
  show ?thesis by simp
qed

section \<open>The frames record handed to the compression worker\<close>

lemma frames_loop_head [simp]: "frames (loop_head w s) = frames s"
  by (simp add: loop_head_def split: list.splits)

lemma frames_settle [simp]: "frames (settle s) = frames s"
  by (simp add: settle_def abort_def finally_reset_def)

lemma frames_captures [simp]:
  "frames (foldl (\<lambda>s' a. capture_frame env a s') s ws) = frames s"
proof -
  obtain ls where "foldl (\<lambda>s' a. capture_frame env a s') s ws = s\<lparr>loops := ls\<rparr>"
    using captures_only_loops [of env s ws] by blast
  then show ?thesis by simp
qed

lemma frames_distinct_handle:
  assumes "distinct (map fst (frames s))"
  shows "distinct (map fst (frames (handle env e s)))"
proof (cases e)
  case SeekDone
  with assms show ?thesis by simp
next
  case SeekedEvent
  with assms show ?thesis by (simp add: dispatch_seeked_def)
next
  case (WorkerMessage w)
  have "distinct (map fst (frames (worker_message env w s)))"
    using assms
    by (simp add: worker_message_def Let_def distinct_update
        split: loop_state.splits worker_response.splits)
  with WorkerMessage show ?thesis by simp
next
  case CompressionMessage
  with assms show ?thesis
    by (simp add: compression_message_def Let_def abort_def finally_reset_def
        split: option.splits)
qed

lemma frames_distinct_run:
  "distinct (map fst (frames s)) \<Longrightarrow> distinct (map fst (frames (run env es s)))"
  unfolding run_def
  by (induction es arbitrary: s) (simp_all add: step_def frames_distinct_handle)

text \<open>
  Every frames record that a run of \<open>extractFrames\<close> builds has each file name once, as a
  JavaScript object has: it is the record the compression worker is sent.
\<close>

lemma extraction_frames_distinct:
  assumes "extractFrames env' hardwareConcurrency st v u = Some (Running s0)"
  shows "distinct (map fst (frames (run env es s0)))"
proof -
  have "frames (foldl (\<lambda>s w. loop_head w s) s ws) = frames s" for s ws
    by (induction ws arbitrary: s) simp_all
  moreover from assms obtain init
    where "s0 = settle (foldl (\<lambda>s w. loop_head w s) init
        [0 ..< worker_count hardwareConcurrency])" and "frames init = []"
    by (rule extractFrames_Running)
  ultimately have "frames s0 = []" by simp
  then show ?thesis by (intro frames_distinct_run) simp
qed


end
